theory Spec2Isabelle
  imports Complex_Main "HOL-Library.Word"
begin

unbundle bit_operations_syntax

section \<open>Values of the platform\<close>

text \<open>
  The code under study is the document security pipeline of the registration wizard:
  the watermark module (\<open>applyWatermark\<close>, \<open>applyPdfWatermark\<close>, \<open>processDocument\<close>,
  \<open>dataUrlToBlob\<close>, \<open>applyInvisibleWatermark\<close>, \<open>hashEmail\<close>, \<open>textToBinary\<close>), the
  encryption module (\<open>encryptData\<close>, \<open>arrayBufferToBase64\<close>, \<open>base64ToArrayBuffer\<close>) and the
  submission handler \<open>handleDocumentsSubmit\<close>.

  A JavaScript string is a sequence of UTF-16 code units, so it is a list of naturals
  (each below 65536); \<open>length\<close>, \<open>split\<close> and \<open>charCodeAt\<close> count code units. An element of
  a \<open>Uint8Array\<close> or \<open>Uint8ClampedArray\<close> is an 8-bit word.
\<close>

type_synonym byte = "8 word"
type_synonym jsstring = "nat list"

definition js :: "string \<Rightarrow> jsstring" where
  "js s = map of_char s"

text \<open>
  A rejected promise or a thrown exception is a value: \<open>Error msg\<close> is \<open>new Error(msg)\<close>,
  \<open>DOMException name\<close> is an exception raised by a browser interface (its message is
  the browser's own text), \<open>LoadError\<close> is the event with which \<open>loadImage\<close> rejects when
  the image cannot be loaded, and \<open>ReadError\<close> is the progress event with which a
  \<open>FileReader\<close> promise rejects (\<open>reader.onerror = reject\<close>) when the read fails.
\<close>

datatype js_error = Error jsstring | DOMException jsstring | LoadError | ReadError

subsection \<open>The browser's \<open>btoa\<close> and \<open>atob\<close>\<close>

text \<open>
  \<open>btoa\<close> and \<open>atob\<close> are built into the browser. They are modelled after the HTML standard:
  \<open>btoa\<close> throws an \<open>InvalidCharacterError\<close> if a code unit exceeds 255 and otherwise encodes
  with the alphabet of RFC 4648 and \<open>=\<close> padding; \<open>atob\<close> is the forgiving-base64 decoder
  (ASCII whitespace is removed, one or two trailing \<open>=\<close> are removed when the length is a
  multiple of four, a length of 1 modulo 4 or a code unit outside the alphabet fails, and the
  left-over bits of the last group are discarded).
\<close>

definition b64char :: "nat \<Rightarrow> nat" where
  "b64char i = (if i < 26 then 65 + i
                else if i < 52 then 71 + i
                else if i < 62 then i - 4
                else if i = 62 then 43 else 47)"

definition b64val :: "nat \<Rightarrow> nat option" where
  "b64val c = (if 65 \<le> c \<and> c \<le> 90 then Some (c - 65)
               else if 97 \<le> c \<and> c \<le> 122 then Some (c - 71)
               else if 48 \<le> c \<and> c \<le> 57 then Some (c + 4)
               else if c = 43 then Some 62
               else if c = 47 then Some 63
               else None)"

fun b64sextets :: "nat list \<Rightarrow> nat list" where
  "b64sextets (a # b # c # rest) =
     [a div 4, (a mod 4) * 16 + b div 16, (b mod 16) * 4 + c div 64, c mod 64] @ b64sextets rest"
| "b64sextets [a, b] = [a div 4, (a mod 4) * 16 + b div 16, (b mod 16) * 4]"
| "b64sextets [a] = [a div 4, (a mod 4) * 16]"
| "b64sextets [] = []"

definition b64padding :: "nat \<Rightarrow> nat" where
  "b64padding n = (if n mod 3 = 1 then 2 else if n mod 3 = 2 then 1 else 0)"

definition InvalidCharacterError :: js_error where
  "InvalidCharacterError = DOMException (js ''InvalidCharacterError'')"

definition btoa :: "jsstring \<Rightarrow> js_error + jsstring" where
  "btoa s = (if list_ex (\<lambda>c. 255 < c) s then Inl InvalidCharacterError
             else Inr (map b64char (b64sextets s) @ replicate (b64padding (length s)) 61))"

definition isAsciiWhitespace :: "nat \<Rightarrow> bool" where
  "isAsciiWhitespace c = (c = 9 \<or> c = 10 \<or> c = 12 \<or> c = 13 \<or> c = 32)"

definition stripPadding :: "jsstring \<Rightarrow> jsstring" where
  "stripPadding d =
     (if length d mod 4 = 0 then
        (if 2 \<le> length d \<and> drop (length d - 2) d = [61, 61] then take (length d - 2) d
         else if 1 \<le> length d \<and> drop (length d - 1) d = [61] then take (length d - 1) d
         else d)
      else d)"

fun b64dec :: "nat list \<Rightarrow> nat list" where
  "b64dec (w # x # y # z # rest) =
     [w * 4 + x div 16, (x mod 16) * 16 + y div 4, (y mod 4) * 64 + z] @ b64dec rest"
| "b64dec [w, x, y] = [w * 4 + x div 16, (x mod 16) * 16 + y div 4]"
| "b64dec [w, x] = [w * 4 + x div 16]"
| "b64dec [w] = []"
| "b64dec [] = []"

definition atob :: "jsstring \<Rightarrow> js_error + jsstring" where
  "atob s =
     (let d = stripPadding (filter (\<lambda>c. \<not> isAsciiWhitespace c) s)
      in if length d mod 4 = 1 then Inl InvalidCharacterError
         else if list_ex (\<lambda>c. b64val c = None) d then Inl InvalidCharacterError
         else Inr (b64dec (map (\<lambda>c. the (b64val c)) d)))"

subsection \<open>The codec of the encryption module\<close>

text \<open>
  \<open>arrayBufferToBase64\<close> appends \<open>String.fromCharCode(bytes[i])\<close> for every byte and calls
  \<open>btoa\<close>; \<open>base64ToArrayBuffer\<close> calls \<open>atob\<close> and stores \<open>charCodeAt(i)\<close> into a
  \<open>Uint8Array\<close> (a store into a \<open>Uint8Array\<close> keeps the value modulo 256).
\<close>

definition arrayBufferToBase64 :: "byte list \<Rightarrow> js_error + jsstring" where
  "arrayBufferToBase64 bytes = btoa (map unat bytes)"

definition base64ToArrayBuffer :: "jsstring \<Rightarrow> js_error + byte list" where
  "base64ToArrayBuffer base64 =
     (case atob base64 of
        Inl e \<Rightarrow> Inl e
      | Inr binary \<Rightarrow> Inr (map word_of_nat binary))"

section \<open>Strings, numbers and JSON\<close>

text \<open>
  \<open>String.prototype.split\<close> with a separator of one code unit: the result is never empty,
  and the empty string gives one empty piece.
\<close>

fun splitOn :: "nat \<Rightarrow> jsstring \<Rightarrow> jsstring list" where
  "splitOn sep [] = [[]]"
| "splitOn sep (c # cs) =
     (if c = sep then [] # splitOn sep cs
      else (case splitOn sep cs of
              piece # pieces \<Rightarrow> (c # piece) # pieces
            | [] \<Rightarrow> [[c]]))"

text \<open>
  \<open>Number.prototype.toString(radix)\<close> on a non-negative integer, with lower-case digits,
  and \<open>String.prototype.padStart\<close> with a fill string of one code unit.
\<close>

definition digitChar :: "nat \<Rightarrow> nat" where
  "digitChar d = (if d < 10 then 48 + d else 87 + d)"

function toStringRadix :: "nat \<Rightarrow> nat \<Rightarrow> jsstring" where
  "toStringRadix r n =
     (if r < 2 then []
      else if n < r then [digitChar n]
      else toStringRadix r (n div r) @ [digitChar (n mod r)])"
  by pat_completeness auto
termination
  by (relation "measure (\<lambda>(r, n). n)") auto

declare toStringRadix.simps [simp del]

definition padStart :: "nat \<Rightarrow> nat \<Rightarrow> jsstring \<Rightarrow> jsstring" where
  "padStart n fill s = replicate (n - length s) fill @ s"

definition asciiLower :: "nat \<Rightarrow> nat" where
  "asciiLower c = (if 65 \<le> c \<and> c \<le> 90 then c + 32 else c)"

text \<open>
  \<open>JSON.stringify\<close> on a string (the abstract operation QuoteJSONString of ECMAScript):
  the seven short escapes, \<open>\uXXXX\<close> for the other control characters and for a surrogate
  that is not part of a pair, and every other code unit as it is.
\<close>

definition isHighSurrogate :: "nat \<Rightarrow> bool" where
  "isHighSurrogate c = (55296 \<le> c \<and> c \<le> 56319)"

definition isLowSurrogate :: "nat \<Rightarrow> bool" where
  "isLowSurrogate c = (56320 \<le> c \<and> c \<le> 57343)"

definition unicodeEscape :: "nat \<Rightarrow> jsstring" where
  "unicodeEscape c = [92, 117] @ padStart 4 48 (toStringRadix 16 c)"

definition escapeUnit :: "nat \<Rightarrow> jsstring" where
  "escapeUnit c =
     (if c = 8 then [92, 98]
      else if c = 9 then [92, 116]
      else if c = 10 then [92, 110]
      else if c = 12 then [92, 102]
      else if c = 13 then [92, 114]
      else if c = 34 then [92, 34]
      else if c = 92 then [92, 92]
      else if c < 32 \<or> isHighSurrogate c \<or> isLowSurrogate c then unicodeEscape c
      else [c])"

fun quoteChars :: "jsstring \<Rightarrow> jsstring" where
  "quoteChars (c # d # ds) =
     (if isHighSurrogate c \<and> isLowSurrogate d then c # d # quoteChars ds
      else escapeUnit c @ quoteChars (d # ds))"
| "quoteChars [c] = escapeUnit c"
| "quoteChars [] = []"

definition quoteJSONString :: "jsstring \<Rightarrow> jsstring" where
  "quoteJSONString s = [34] @ quoteChars s @ [34]"

section \<open>Files, blobs and canvases\<close>

text \<open>
  A \<open>Blob\<close> is its bytes and its media type; a \<open>File\<close> is a blob with a name. In the
  watermark module \<open>file.arrayBuffer()\<close> gives the bytes of the file; a read that fails is
  modelled where the submission handler reads with a \<open>FileReader\<close>. The \<open>Blob\<close> constructor normalises the type it is given: a type with a code unit
  outside U+0020..U+007E becomes the empty string, any other type is put in ASCII lower case.
\<close>

record blob =
  blobBytes :: "byte list"
  blobType :: jsstring

record jsfile = blob +
  fileName :: jsstring

definition newBlob :: "byte list \<Rightarrow> jsstring \<Rightarrow> blob" where
  "newBlob bytes t =
     \<lparr>blobBytes = bytes,
      blobType = (if list_ex (\<lambda>c. c < 32 \<or> 126 < c) t then [] else map asciiLower t)\<rparr>"

text \<open>
  A bitmap is a size and its pixels, addressed by column, row and channel (0 red, 1 green,
  2 blue, 3 alpha); \<open>decodeImage\<close> below gives the bitmap that the canvas shows once the
  image is drawn on it. An \<open>ImageData\<close> is a flat RGBA array in raster order.

  A canvas is a bitmap together with the way its backing store keeps a pixel that
  \<open>putImageData\<close> writes. A fully opaque pixel (alpha 255) is kept exactly. A pixel that is
  not fully opaque is kept as the browser chooses (canvases keep premultiplied colour, so
  that \<open>getImageData\<close> need not return what was put): \<open>backing\<close> gives the four channel
  values that are read back for the four values written.
\<close>

record bitmap =
  bwidth :: nat
  bheight :: nat
  pixel :: "nat \<Rightarrow> nat \<Rightarrow> nat \<Rightarrow> byte"

record canvas = bitmap +
  backing :: "(nat \<Rightarrow> byte) \<Rightarrow> nat \<Rightarrow> byte"

record imagedata =
  idWidth :: nat
  idHeight :: nat
  idData :: "byte list"

definition IndexSizeError :: js_error where
  "IndexSizeError = DOMException (js ''IndexSizeError'')"

definition canvasPixel :: "canvas \<Rightarrow> nat \<Rightarrow> nat \<Rightarrow> nat \<Rightarrow> byte" where
  "canvasPixel cv x y c = (if x < bwidth cv \<and> y < bheight cv then pixel cv x y c else 0)"

definition getImageData :: "canvas \<Rightarrow> nat \<Rightarrow> nat \<Rightarrow> nat \<Rightarrow> nat \<Rightarrow> js_error + imagedata" where
  "getImageData cv sx sy sw sh =
     (if sw = 0 \<or> sh = 0 then Inl IndexSizeError
      else Inr \<lparr>idWidth = sw, idHeight = sh,
                idData = map (\<lambda>i. canvasPixel cv (sx + (i div 4) mod sw) (sy + (i div 4) div sw) (i mod 4))
                             [0 ..< 4 * sw * sh]\<rparr>)"

definition storedPixel :: "canvas \<Rightarrow> (nat \<Rightarrow> byte) \<Rightarrow> nat \<Rightarrow> byte" where
  "storedPixel cv px = (if px 3 = 255 then px else backing cv px)"

definition putImageData :: "canvas \<Rightarrow> imagedata \<Rightarrow> nat \<Rightarrow> nat \<Rightarrow> canvas" where
  "putImageData cv img dx dy =
     cv\<lparr>pixel := (\<lambda>x y c.
          if dx \<le> x \<and> x < dx + idWidth img \<and> dy \<le> y \<and> y < dy + idHeight img
             \<and> x < bwidth cv \<and> y < bheight cv \<and> c < 4
          then storedPixel cv
                 (\<lambda>k. if k < 4 then idData img ! (4 * ((y - dy) * idWidth img + (x - dx)) + k) else 0) c
          else pixel cv x y c)\<rparr>"

section \<open>The watermark module\<close>

subsection \<open>Helpers\<close>

definition textToBinary :: "jsstring \<Rightarrow> jsstring" where
  "textToBinary text = concat (map (\<lambda>char. padStart 8 48 (toStringRadix 2 char)) text)"

definition arrayBufferToHex :: "byte list \<Rightarrow> jsstring" where
  "arrayBufferToHex buffer = concat (map (\<lambda>b. padStart 2 48 (toStringRadix 16 (unat b))) buffer)"

text \<open>
  The environment of one call: the browser functions the module uses and whose results
  the code does not determine. \<open>sha256\<close> is \<open>crypto.subtle.digest('SHA-256', _)\<close>, \<open>utf8\<close> is
  \<open>TextEncoder.encode\<close>, \<open>lowerCaseUnicode\<close> is \<open>toLowerCase\<close> on a string with a code unit
  above 127, \<open>randomUUID\<close> and \<open>now\<close> are the values that \<open>crypto.randomUUID()\<close> and
  \<open>new Date()\<close> return, \<open>decodeImage\<close> is \<open>loadImage\<close> on the object URL of a file (\<open>None\<close>
  when the image element reports an error), \<open>context2d\<close> tells whether
  \<open>canvas.getContext('2d')\<close> returns a context, \<open>canvasBacking\<close> is the backing store of
  the canvas that \<open>document.createElement('canvas')\<close> makes, \<open>drawVisibleWatermark\<close> is the effect of
  \<open>applyVisibleWatermark\<close> (text drawn by the canvas, from the text, the size and the
  opacity), and \<open>toDataURL\<close> is the canvas encoder, called with the media type and the
  quality. A \<open>Date\<close> is observed through \<open>toISOString\<close> and
  \<open>toLocaleDateString('en-GB', ...)\<close> only. The numbers that the code only hands to the
  canvas (opacity, quality) are rationals.
\<close>

record jsdate =
  toISOString :: jsstring
  toLocaleDateString :: jsstring

record env =
  sha256 :: "byte list \<Rightarrow> byte list"
  utf8 :: "jsstring \<Rightarrow> byte list"
  lowerCaseUnicode :: "jsstring \<Rightarrow> jsstring"
  randomUUID :: jsstring
  now :: jsdate
  decodeImage :: "jsfile \<Rightarrow> bitmap option"
  context2d :: bool
  canvasBacking :: "(nat \<Rightarrow> byte) \<Rightarrow> nat \<Rightarrow> byte"
  drawVisibleWatermark :: "canvas \<Rightarrow> jsstring \<Rightarrow> nat \<Rightarrow> nat \<Rightarrow> rat \<Rightarrow> canvas"
  toDataURL :: "canvas \<Rightarrow> jsstring \<Rightarrow> rat option \<Rightarrow> jsstring"

definition toLowerCase :: "env \<Rightarrow> jsstring \<Rightarrow> jsstring" where
  "toLowerCase env s = (if list_all (\<lambda>c. c < 128) s then map asciiLower s else lowerCaseUnicode env s)"

definition hashEmail :: "env \<Rightarrow> jsstring \<Rightarrow> jsstring" where
  "hashEmail env email = take 16 (arrayBufferToHex (sha256 env (utf8 env (toLowerCase env email))))"

definition firstChar :: "jsstring \<Rightarrow> jsstring" where
  "firstChar s = (case s of [] \<Rightarrow> js ''undefined'' | c # _ \<Rightarrow> [c])"

definition maskEmail :: "jsstring \<Rightarrow> jsstring" where
  "maskEmail email =
     (case splitOn 64 email of
        local # domain # _ \<Rightarrow>
          if domain = [] then js ''***''
          else
            (let maskedLocal =
                   (if 2 < length local
                    then [hd local] @ replicate (min (length local - 2) 4) 42 @ [last local]
                    else js ''**'');
                 domainParts = splitOn 46 domain;
                 maskedDomain =
                   (if 1 < length domainParts
                    then firstChar (hd domainParts) @ js ''***'' @ last domainParts
                    else domain)
             in maskedLocal @ [64] @ maskedDomain)
      | _ \<Rightarrow> js ''***'')"

subsection \<open>The metadata and the invisible watermark\<close>

record watermark_metadata =
  sessionId :: jsstring
  emailHash :: jsstring
  timestamp :: jsstring
  purpose :: jsstring
  platform :: jsstring

definition JSON_stringify :: "watermark_metadata \<Rightarrow> jsstring" where
  "JSON_stringify m =
     js ''{'' @ quoteJSONString (js ''sessionId'') @ js '':'' @ quoteJSONString (sessionId m)
     @ js '','' @ quoteJSONString (js ''emailHash'') @ js '':'' @ quoteJSONString (emailHash m)
     @ js '','' @ quoteJSONString (js ''timestamp'') @ js '':'' @ quoteJSONString (timestamp m)
     @ js '','' @ quoteJSONString (js ''purpose'') @ js '':'' @ quoteJSONString (purpose m)
     @ js '','' @ quoteJSONString (js ''platform'') @ js '':'' @ quoteJSONString (platform m)
     @ js ''}''"

definition generateMetadataHash :: "env \<Rightarrow> watermark_metadata \<Rightarrow> jsstring" where
  "generateMetadataHash env metadata = arrayBufferToHex (sha256 env (utf8 env (JSON_stringify metadata)))"

text \<open>
  \<open>parseInt(binary[bitIndex], 10)\<close> on one code unit, as the operand of a bitwise or:
  a decimal digit gives its value, anything else gives \<open>NaN\<close>, which the bitwise or reads as 0.
\<close>

definition parseBit :: "nat \<Rightarrow> byte" where
  "parseBit c = (if 48 \<le> c \<and> c \<le> 57 then word_of_nat (c - 48) else 0)"

text \<open>
  The loop of \<open>applyInvisibleWatermark\<close>, with its two counters: \<open>embedStep\<close> is the body
  of the loop (the conditional statement), \<open>embedBits\<close> the loop. A store into a typed array
  beyond its end is ignored.
\<close>

definition embedStep :: "byte list \<Rightarrow> jsstring \<Rightarrow> nat \<Rightarrow> nat \<Rightarrow> byte list \<times> nat" where
  "embedStep data binary i bitIndex =
     (if bitIndex < length binary then
        (if i + 2 < length data
         then data[i + 2 := (data ! (i + 2) AND 0xFE) OR parseBit (binary ! bitIndex)]
         else data,
         bitIndex + 1)
      else (data, bitIndex))"

function embedBits :: "byte list \<Rightarrow> jsstring \<Rightarrow> nat \<Rightarrow> nat \<Rightarrow> byte list" where
  "embedBits data binary i bitIndex =
     (if i < length data \<and> bitIndex < length binary then
        embedBits (fst (embedStep data binary i bitIndex)) binary (i + 4)
                  (snd (embedStep data binary i bitIndex))
      else data)"
  by pat_completeness auto
termination
  by (relation "measure (\<lambda>(data, binary, i, bitIndex). length data - i)")
     (auto simp: embedStep_def)

declare embedBits.simps [simp del]

text \<open>
  The side of the square region in the bottom-right corner:
  \<open>Math.min(100, Math.floor(width * 0.1), Math.floor(height * 0.1))\<close>. For the width or
  height of a canvas, \<open>Math.floor(n * 0.1)\<close> is the integer quotient of \<open>n\<close> by 10.
  \<open>getImageData\<close> throws an \<open>IndexSizeError\<close> when the side is 0, that is when the image is
  less than 10 pixels wide or high.
\<close>

definition regionSize :: "nat \<Rightarrow> nat \<Rightarrow> nat" where
  "regionSize w h = min 100 (min (w div 10) (h div 10))"

definition applyInvisibleWatermark ::
  "canvas \<Rightarrow> watermark_metadata \<Rightarrow> nat \<Rightarrow> nat \<Rightarrow> js_error + canvas" where
  "applyInvisibleWatermark ctx metadata w h =
     (let metadataStr = JSON_stringify metadata;
          binary = textToBinary metadataStr;
          rs = regionSize w h
      in case getImageData ctx (w - rs) (h - rs) rs rs of
           Inl e \<Rightarrow> Inl e
         | Inr imageData \<Rightarrow>
             Inr (putImageData ctx
                    (imageData\<lparr>idData := embedBits (idData imageData) binary 0 0\<rparr>)
                    (w - rs) (h - rs)))"

subsection \<open>\<open>applyWatermark\<close> and \<open>applyPdfWatermark\<close>\<close>

text \<open>
  An optional property that is absent is \<open>None\<close>. \<open>wmTimestamp\<close> is a valid \<open>Date\<close>.
  In \<open>applyWatermark\<close> the canvas takes the size of the decoded image and the image is
  drawn at the origin, so the canvas starts with the bitmap of the image.
\<close>

record WatermarkOptions =
  wmSessionId :: jsstring
  wmEmail :: jsstring
  wmTimestamp :: jsdate
  visibleWatermark :: "bool option"
  watermarkText :: "jsstring option"
  opacity :: "rat option"

record ProcessDocumentOptions =
  userEmail :: jsstring
  documentType :: jsstring
  addVisibleWatermark :: "bool option"
  addInvisibleWatermark :: "bool option"

record WatermarkedDocument =
  wdData :: jsstring
  wdOriginalName :: jsstring
  wdMimeType :: jsstring
  wdMetadataHash :: jsstring
  wdProcessedAt :: jsstring

record ProcessedDocument =
  pdBlob :: blob
  originalName :: jsstring
  mimeType :: jsstring
  metadataHash :: "jsstring option"
  watermarkId :: "jsstring option"
  processedAt :: jsstring

definition imageTypes :: "jsstring list" where
  "imageTypes = [js ''image/jpeg'', js ''image/png'', js ''image/jpg'']"

text \<open>The object literal \<open>metadata\<close> that \<open>applyWatermark\<close> builds.\<close>

definition watermarkMetadata :: "env \<Rightarrow> WatermarkOptions \<Rightarrow> watermark_metadata" where
  "watermarkMetadata env options =
     \<lparr>sessionId = wmSessionId options,
      emailHash = hashEmail env (wmEmail options),
      timestamp = toISOString (wmTimestamp options),
      purpose = js ''driver_registration'',
      platform = js ''deligo_website''\<rparr>"

definition defaultWatermarkText :: "WatermarkOptions \<Rightarrow> jsstring" where
  "defaultWatermarkText options =
     js ''D'' @ [201] @ js ''LIGO - '' @ maskEmail (wmEmail options) @ js '' - ''
     @ toLocaleDateString (wmTimestamp options)"

definition applyWatermark :: "env \<Rightarrow> jsfile \<Rightarrow> WatermarkOptions \<Rightarrow> js_error + WatermarkedDocument" where
  "applyWatermark env file options =
     (if blobType file \<notin> set imageTypes
      then Inl (Error (js ''Watermarking only supports JPEG and PNG images''))
      else case decodeImage env file of
        None \<Rightarrow> Inl LoadError
      | Some img \<Rightarrow>
          if \<not> context2d env then Inl (Error (js ''Canvas context not available''))
          else
            (let canvas = \<lparr>bwidth = bwidth img, bheight = bheight img, pixel = pixel img,
                            backing = canvasBacking env\<rparr>;
                 metadata = watermarkMetadata env options
             in case applyInvisibleWatermark canvas metadata (bwidth canvas) (bheight canvas) of
                  Inl e \<Rightarrow> Inl e
                | Inr marked \<Rightarrow>
                    (let drawn =
                           (if (case visibleWatermark options of None \<Rightarrow> True | Some v \<Rightarrow> v)
                            then drawVisibleWatermark env marked
                                   (case watermarkText options of
                                      None \<Rightarrow> defaultWatermarkText options
                                    | Some t \<Rightarrow> if t = [] then defaultWatermarkText options else t)
                                   (bwidth canvas) (bheight canvas)
                                   (case opacity options of None \<Rightarrow> 15 / 100 | Some p \<Rightarrow> p)
                            else marked);
                         mimeType = (if blobType file = js ''image/png'' then js ''image/png''
                                     else js ''image/jpeg'');
                         quality = (if mimeType = js ''image/jpeg'' then Some (92 / 100) else None);
                         dataUrl = toDataURL env drawn mimeType quality
                     in Inr \<lparr>wdData = dataUrl,
                              wdOriginalName = fileName file,
                              wdMimeType = mimeType,
                              wdMetadataHash = generateMetadataHash env metadata,
                              wdProcessedAt = toISOString (wmTimestamp options)\<rparr>)))"

record pdf_metadata =
  pmSessionId :: jsstring
  pmEmailHash :: jsstring
  pmTimestamp :: jsstring
  pmPurpose :: jsstring
  requiresServerWatermark :: bool

record pdf_result =
  prData :: jsstring
  requiresServerProcessing :: bool
  prMetadata :: pdf_metadata

definition applyPdfWatermark :: "env \<Rightarrow> jsfile \<Rightarrow> WatermarkOptions \<Rightarrow> js_error + pdf_result" where
  "applyPdfWatermark env file options =
     (case arrayBufferToBase64 (blobBytes file) of
        Inl e \<Rightarrow> Inl e
      | Inr base64 \<Rightarrow>
          Inr \<lparr>prData = js ''data:application/pdf;base64,'' @ base64,
               requiresServerProcessing = True,
               prMetadata =
                 \<lparr>pmSessionId = wmSessionId options,
                  pmEmailHash = hashEmail env (wmEmail options),
                  pmTimestamp = toISOString (wmTimestamp options),
                  pmPurpose = js ''driver_registration'',
                  requiresServerWatermark = True\<rparr>\<rparr>)"

subsection \<open>\<open>dataUrlToBlob\<close>\<close>

text \<open>
  \<open>arr[0].match(/:(.*?);/)\<close>: the match starts at the leftmost colon from which a semicolon
  is reached without passing a line terminator (which \<open>.\<close> does not match), and the group is
  the text between that colon and the first semicolon after it. The result is the group of
  the match, or \<open>None\<close> when there is no match.
\<close>

definition isLineTerminator :: "nat \<Rightarrow> bool" where
  "isLineTerminator c = (c = 10 \<or> c = 13 \<or> c = 8232 \<or> c = 8233)"

definition reachesSemicolon :: "jsstring \<Rightarrow> bool" where
  "reachesSemicolon cs =
     (case dropWhile (\<lambda>d. d \<noteq> 59 \<and> \<not> isLineTerminator d) cs of
        [] \<Rightarrow> False
      | d # _ \<Rightarrow> d = 59)"

fun matchMime :: "jsstring \<Rightarrow> jsstring option" where
  "matchMime [] = None"
| "matchMime (c # cs) =
     (if c = 58 \<and> reachesSemicolon cs
      then Some (takeWhile (\<lambda>d. d \<noteq> 59 \<and> \<not> isLineTerminator d) cs)
      else matchMime cs)"

text \<open>
  \<open>arr[1]\<close> is \<open>undefined\<close> when the string has no comma, and \<open>atob(undefined)\<close> decodes
  the string \<open>"undefined"\<close>.
\<close>

definition dataUrlToBlob :: "jsstring \<Rightarrow> js_error + blob" where
  "dataUrlToBlob dataUrl =
     (let arr = splitOn 44 dataUrl;
          mime = (case matchMime (hd arr) of
                    Some m \<Rightarrow> m
                  | None \<Rightarrow> js ''application/octet-stream'')
      in case atob (case tl arr of [] \<Rightarrow> js ''undefined'' | payload # _ \<Rightarrow> payload) of
           Inl e \<Rightarrow> Inl e
         | Inr bstr \<Rightarrow> Inr (newBlob (map word_of_nat bstr) mime))"

subsection \<open>\<open>processDocument\<close>\<close>

definition watermarkOptionsOf :: "env \<Rightarrow> ProcessDocumentOptions \<Rightarrow> WatermarkOptions" where
  "watermarkOptionsOf env options =
     \<lparr>wmSessionId = randomUUID env,
      wmEmail = userEmail options,
      wmTimestamp = now env,
      visibleWatermark = Some (case addVisibleWatermark options of None \<Rightarrow> True | Some v \<Rightarrow> v),
      watermarkText = None,
      opacity = None\<rparr>"

definition processDocument :: "env \<Rightarrow> jsfile \<Rightarrow> ProcessDocumentOptions \<Rightarrow> js_error + ProcessedDocument" where
  "processDocument env file options =
     (let timestamp = now env;
          sessionId = randomUUID env;
          watermarkOptions = watermarkOptionsOf env options
      in if blobType file = js ''application/pdf'' then
           (case applyPdfWatermark env file watermarkOptions of
              Inl e \<Rightarrow> Inl e
            | Inr result \<Rightarrow>
                (case dataUrlToBlob (prData result) of
                   Inl e \<Rightarrow> Inl e
                 | Inr blob \<Rightarrow>
                     Inr \<lparr>pdBlob = blob,
                          originalName = fileName file,
                          mimeType = blobType file,
                          metadataHash = None,
                          watermarkId = Some sessionId,
                          processedAt = toISOString timestamp\<rparr>))
         else if blobType file \<in> set imageTypes then
           (case applyWatermark env file watermarkOptions of
              Inl e \<Rightarrow> Inl e
            | Inr result \<Rightarrow>
                (case dataUrlToBlob (wdData result) of
                   Inl e \<Rightarrow> Inl e
                 | Inr blob \<Rightarrow>
                     Inr \<lparr>pdBlob = blob,
                          originalName = wdOriginalName result,
                          mimeType = wdMimeType result,
                          metadataHash = Some (wdMetadataHash result),
                          watermarkId = Some sessionId,
                          processedAt = wdProcessedAt result\<rparr>))
         else Inl (Error (js ''Unsupported file type: '' @ blobType file)))"

section \<open>The encryption module\<close>

text \<open>
  \<open>crypto.getRandomValues\<close> reads the random source of the browser: the source is a
  sequence of bytes and a position in it, and a call that fills an array of \<open>n\<close> bytes takes
  the next \<open>n\<close> bytes. \<open>crypto.subtle.encrypt\<close> with AES-GCM is a parameter: it receives the
  key, the initialization vector, the tag length in bits and the data, and gives the
  ciphertext followed by the tag, or rejects. The data is an \<open>ArrayBuffer\<close> or a
  \<open>Uint8Array\<close>; in both cases \<open>dataBuffer\<close> holds its bytes.
\<close>

record random_source =
  randomBytes :: "nat \<Rightarrow> byte"
  position :: nat

definition getRandomValues :: "random_source \<Rightarrow> nat \<Rightarrow> byte list \<times> random_source" where
  "getRandomValues src n =
     (map (randomBytes src) [position src ..< position src + n],
      src\<lparr>position := position src + n\<rparr>)"

definition IV_LENGTH :: nat where
  "IV_LENGTH = 12"

definition TAG_LENGTH :: nat where
  "TAG_LENGTH = 128"

definition encryptData ::
  "('k \<Rightarrow> byte list \<Rightarrow> nat \<Rightarrow> byte list \<Rightarrow> js_error + byte list) \<Rightarrow> random_source
     \<Rightarrow> byte list \<Rightarrow> 'k \<Rightarrow> (js_error + jsstring) \<times> random_source" where
  "encryptData subtleEncrypt src data key =
     (let (iv, src') = getRandomValues src IV_LENGTH;
          dataBuffer = data
      in case subtleEncrypt key iv TAG_LENGTH dataBuffer of
           Inl e \<Rightarrow> (Inl e, src')
         | Inr ciphertext \<Rightarrow>
             (let combined = iv @ ciphertext
              in (arrayBufferToBase64 combined, src')))"

section \<open>The submission handler\<close>


















section \<open>Sample inputs\<close>

text \<open>
  A backing store that keeps premultiplied colour with eight bits for a channel, rounding
  to the nearest value in both directions, as the canvases of the common browsers do: with
  alpha 128 the value 55 is kept as 28 and read back as 56.
\<close>

definition premultipliedBacking :: "(nat \<Rightarrow> byte) \<Rightarrow> nat \<Rightarrow> byte" where
  "premultipliedBacking px c =
     (if c = 3 then px 3
      else if px 3 = 0 then 0
      else word_of_nat
             ((((unat (px c) * unat (px 3) + 127) div 255) * 255 + unat (px 3) div 2) div unat (px 3)))"

text \<open>
  An environment and some files on which the definitions are evaluated. The digest of the
  sample environment is a placeholder of 32 bytes, its encoder maps a code unit to a byte,
  and its image decoder gives a white bitmap of 40 by 30 pixels.
\<close>

definition sampleEnv :: env where
  "sampleEnv =
     \<lparr>sha256 = (\<lambda>bs. take 32 (bs @ replicate 32 0)),
      utf8 = map word_of_nat,
      lowerCaseUnicode = (\<lambda>s. s),
      randomUUID = js ''123e4567-e89b-42d3-a456-426614174000'',
      now = \<lparr>toISOString = js ''2026-01-02T03:04:05.678Z'', toLocaleDateString = js ''02/01/2026''\<rparr>,
      decodeImage = (\<lambda>f. if blobBytes f = [] then None
                          else Some \<lparr>bwidth = 40, bheight = 30, pixel = (\<lambda>x y c. 255)\<rparr>),
      context2d = True,
      canvasBacking = premultipliedBacking,
      drawVisibleWatermark = (\<lambda>b t w h p. b),
      toDataURL = (\<lambda>b t q. js ''data:'' @ t @ js '';base64,QUJD'')\<rparr>"

definition sampleOptions :: ProcessDocumentOptions where
  "sampleOptions =
     \<lparr>userEmail = js ''Jane.Doe@Example.com'', documentType = js ''drivingLicense'',
      addVisibleWatermark = Some True, addInvisibleWatermark = Some True\<rparr>"

definition sampleJpeg :: jsfile where
  "sampleJpeg = \<lparr>blobBytes = [255, 216, 255, 224], blobType = js ''image/jpeg'', fileName = js ''licence.jpg''\<rparr>"

definition samplePdf :: jsfile where
  "samplePdf = \<lparr>blobBytes = [37, 80, 68, 70], blobType = js ''application/pdf'', fileName = js ''licence.pdf''\<rparr>"

definition sampleText :: jsfile where
  "sampleText = \<lparr>blobBytes = [104, 105], blobType = js ''text/plain'', fileName = js ''notes.txt''\<rparr>"

definition noContextEnv :: env where
  "noContextEnv = sampleEnv\<lparr>context2d := False\<rparr>"

text \<open>
  A media type as \<open>canvas.toDataURL\<close> and \<open>applyPdfWatermark\<close> write it: printable ASCII
  without upper-case letters, commas and semicolons.
\<close>

definition plainMime :: "jsstring \<Rightarrow> bool" where
  "plainMime mime =
     list_all (\<lambda>c. 32 \<le> c \<and> c \<le> 126 \<and> c \<noteq> 44 \<and> c \<noteq> 59 \<and> (c < 65 \<or> 90 < c)) mime"

definition sampleWatermarkOptions :: WatermarkOptions where
  "sampleWatermarkOptions =
     \<lparr>wmSessionId = js ''123e4567-e89b-42d3-a456-426614174000'',
      wmEmail = js ''Jane.Doe@Example.com'',
      wmTimestamp = \<lparr>toISOString = js ''2026-01-02T03:04:05.678Z'', toLocaleDateString = js ''02/01/2026''\<rparr>,
      visibleWatermark = Some False,
      watermarkText = None,
      opacity = None\<rparr>"

text \<open>
  A random source and a stand-in for the cipher (it masks each byte with the first byte of
  the initialization vector and appends a tag of zero bytes), to evaluate \<open>encryptData\<close>.
\<close>

definition sampleSource :: random_source where
  "sampleSource = \<lparr>randomBytes = (\<lambda>i. word_of_nat (7 * i + 1)), position = 0\<rparr>"

definition sampleCipher :: "byte \<Rightarrow> byte list \<Rightarrow> nat \<Rightarrow> byte list \<Rightarrow> js_error + byte list" where
  "sampleCipher key iv tagLength data =
     Inr (map (\<lambda>b. b XOR key XOR hd iv) data @ replicate (tagLength div 8) 0)"




text \<open>
  A metadata object as \<open>processDocument\<close> makes it, two canvases of 400 by 400 pixels, one
  opaque and white, one with alpha 128 everywhere, and the value of a channel of a pixel in
  the result of \<open>applyInvisibleWatermark\<close>.
\<close>

definition uuidMetadata :: watermark_metadata where
  "uuidMetadata =
     \<lparr>sessionId = js ''123e4567-e89b-42d3-a456-426614174000'',
      emailHash = js ''6a616e652e646f65'',
      timestamp = js ''2026-01-02T03:04:05.678Z'',
      purpose = js ''driver_registration'',
      platform = js ''deligo_website''\<rparr>"

definition opaqueCanvas :: canvas where
  "opaqueCanvas =
     \<lparr>bwidth = 400, bheight = 400, pixel = (\<lambda>x y c. 255), backing = premultipliedBacking\<rparr>"

definition translucentCanvas :: canvas where
  "translucentCanvas =
     \<lparr>bwidth = 400, bheight = 400, pixel = (\<lambda>x y c. if c = 3 then 128 else 54),
      backing = premultipliedBacking\<rparr>"

definition pixelAfter :: "js_error + canvas \<Rightarrow> nat \<Rightarrow> nat \<Rightarrow> nat \<Rightarrow> byte option" where
  "pixelAfter r x y c = (case r of Inl e \<Rightarrow> None | Inr cv \<Rightarrow> Some (pixel cv x y c))"

text \<open>
  The serialisation that the specification describes: eight bits for every character,
  the most significant bit first, written with the characters \<open>0\<close> and \<open>1\<close>.
\<close>

definition eightBitsMSBFirst :: "nat \<Rightarrow> jsstring" where
  "eightBitsMSBFirst c = map (\<lambda>k. 48 + (c div 2 ^ k) mod 2) [7, 6, 5, 4, 3, 2, 1, 0]"

definition eightBitsPerCharacter :: "jsstring \<Rightarrow> jsstring" where
  "eightBitsPerCharacter text = concat (map eightBitsMSBFirst text)"

text \<open>
  A metadata object whose session identifier has a character above U+00FF (the letter D
  with stroke, U+0110); \<open>applyWatermark\<close> takes the identifier from its options.
\<close>

definition wideMetadata :: watermark_metadata where
  "wideMetadata =
     \<lparr>sessionId = [272],
      emailHash = js ''6a616e652e646f65'',
      timestamp = js ''2026-01-02T03:04:05.678Z'',
      purpose = js ''driver_registration'',
      platform = js ''deligo_website''\<rparr>"


text \<open>
  The parts of a string that \<open>dataUrlToBlob\<close> looks at, in the words of the amended
  claim C8: the text before the first comma; the text between the first and the second
  comma (up to the end when there is one comma); and the media type that the text before the
  first comma declares, which is the text from the first colon that has a semicolon after
  it with no line terminator in between, up to that semicolon.
\<close>

definition beforeFirstComma :: "jsstring \<Rightarrow> jsstring" where
  "beforeFirstComma s = takeWhile (\<lambda>c. c \<noteq> 44) s"

definition betweenFirstCommas :: "jsstring \<Rightarrow> jsstring" where
  "betweenFirstCommas s = takeWhile (\<lambda>c. c \<noteq> 44) (drop 1 (dropWhile (\<lambda>c. c \<noteq> 44) s))"

definition semicolonOnLine :: "jsstring \<Rightarrow> bool" where
  "semicolonOnLine t =
     (59 \<in> set t \<and> list_all (\<lambda>c. \<not> isLineTerminator c) (takeWhile (\<lambda>c. c \<noteq> 59) t))"

definition declaredType :: "jsstring \<Rightarrow> jsstring option" where
  "declaredType p =
     (case filter (\<lambda>i. p ! i = 58 \<and> semicolonOnLine (drop (Suc i) p)) [0 ..< length p] of
        [] \<Rightarrow> None
      | i # _ \<Rightarrow> Some (takeWhile (\<lambda>c. c \<noteq> 59) (drop (Suc i) p)))"
section \<open>Properties of the base64 codec\<close>

lemma b64val_b64char: "i < 64 \<Longrightarrow> b64val (b64char i) = Some i"
  unfolding b64val_def b64char_def by (cases "i < 26"; cases "i < 52"; cases "i < 62"; cases "i = 62"; simp; arith)

lemma b64char_plain: "i < 64 \<Longrightarrow> b64char i \<noteq> 61 \<and> b64char i \<noteq> 44 \<and> \<not> isAsciiWhitespace (b64char i)"
  unfolding b64char_def isAsciiWhitespace_def by (cases "i < 26"; cases "i < 52"; cases "i < 62"; simp; arith)

lemma b64sextets_bound:
  "\<forall>b \<in> set bs. b < 256 \<Longrightarrow> \<forall>v \<in> set (b64sextets bs). v < 64"
proof (induction bs rule: b64sextets.induct)
  case (1 a b c rest)
  then have "a < 256" "b < 256" "c < 256" by simp_all
  with 1 show ?case by auto
next
  case (2 a b)
  then have "a < 256" "b < 256" by simp_all
  then show ?case by auto
next
  case (3 a)
  then have "a < 256" by simp
  then show ?case by auto
qed simp

lemma b64dec_b64sextets:
  "\<forall>b \<in> set bs. b < 256 \<Longrightarrow> b64dec (b64sextets bs) = bs"
proof (induction bs rule: b64sextets.induct)
  case (1 a b c rest)
  then have "a < 256" "b < 256" "c < 256" by simp_all
  moreover from 1 have "b64dec (b64sextets rest) = rest" by simp
  ultimately show ?case by simp
next
  case (2 a b)
  then have "a < 256" "b < 256" by simp_all
  then show ?case by simp
next
  case (3 a)
  then show ?case by simp
qed simp

lemma length_b64sextets:
  "length (b64sextets bs) = 4 * (length bs div 3) + (if length bs mod 3 = 0 then 0 else length bs mod 3 + 1)"
proof (induction bs rule: b64sextets.induct)
  case (1 a b c rest)
  have "(3 + length rest) div 3 = Suc (length rest div 3)" by simp
  moreover have "(3 + length rest) mod 3 = length rest mod 3" by simp
  ultimately show ?case using 1 by simp
qed simp_all

lemma stripPadding_pad:
  assumes "p \<le> 2" and "body = [] \<or> last body \<noteq> 61" and "length (body @ replicate p 61) mod 4 = 0"
  shows "stripPadding (body @ replicate p 61) = body"
proof -
  consider "p = 0" | "p = 1" | "p = 2" using assms(1) by arith
  then show ?thesis
  proof cases
    case 1
    show ?thesis
    proof (cases "body = []")
      case True
      with 1 show ?thesis by (simp add: stripPadding_def)
    next
      case False
      with assms(2) have l: "last body \<noteq> 61" by simp
      from False obtain ys y where b: "body = ys @ [y]" by (metis append_butlast_last_id)
      with l have y: "y \<noteq> 61" by simp
      show ?thesis using 1 y by (simp add: stripPadding_def b)
    qed
  next
    case 2
    have nn: "\<not> (drop (length body - Suc 0) body @ [61] = [61, 61])" 
    proof (cases "body = []")
      case True then show ?thesis by simp
    next
      case False
      with assms(2) have l: "last body \<noteq> 61" by simp
      from False obtain ys y where b: "body = ys @ [y]" by (metis append_butlast_last_id)
      with l have y: "y \<noteq> 61" by simp
      show ?thesis using y by (simp add: b)
    qed
    show ?thesis using 2 assms(3) nn by (simp add: stripPadding_def)
  next
    case 3
    then have "replicate p (61::nat) = [61, 61]" by (simp add: numeral_2_eq_2)
    then show ?thesis using assms(3) by (simp add: stripPadding_def)
  qed
qed

lemma last_b64sextets_char:
  "\<forall>b \<in> set bs. b < 256 \<Longrightarrow> \<forall>c \<in> set (map b64char (b64sextets bs)). c \<noteq> 61 \<and> c \<noteq> 44 \<and> \<not> isAsciiWhitespace c \<and> b64val c \<noteq> None"
  using b64sextets_bound[of bs] b64char_plain b64val_b64char by fastforce

lemma btoa_length_mod4:
  "length (map b64char (b64sextets s) @ replicate (b64padding (length s)) (61::nat)) mod 4 = 0"
  by (simp add: length_b64sextets b64padding_def)

lemma atob_btoa:
  assumes "\<forall>b \<in> set s. b < 256"
  shows "atob (map b64char (b64sextets s) @ replicate (b64padding (length s)) 61) = Inr s"
proof -
  let ?body = "map b64char (b64sextets s)"
  let ?p = "b64padding (length s)"
  have plain: "\<forall>c \<in> set ?body. c \<noteq> 61 \<and> c \<noteq> 44 \<and> \<not> isAsciiWhitespace c \<and> b64val c \<noteq> None"
    using assms by (rule last_b64sextets_char)
  have f1: "filter (\<lambda>c. \<not> isAsciiWhitespace c) ?body = ?body"
    using plain by (simp add: filter_id_conv)
  have f2: "filter (\<lambda>c. \<not> isAsciiWhitespace c) (replicate ?p 61) = replicate ?p 61"
    by (simp add: isAsciiWhitespace_def)
  have lastb: "?body = [] \<or> last ?body \<noteq> 61"
    using plain last_in_set[of ?body] by blast
  have p2: "?p \<le> 2" by (simp add: b64padding_def)
  have strip: "stripPadding (?body @ replicate ?p 61) = ?body"
    using p2 lastb btoa_length_mod4 by (rule stripPadding_pad)
  have len: "length ?body mod 4 \<noteq> 1"
    by (simp add: length_b64sextets)
  have vals: "\<not> (\<exists>c \<in> set ?body. b64val c = None)"
    using plain by blast
  have "map (\<lambda>c. the (b64val c)) ?body = b64sextets s"
    using b64sextets_bound[OF assms] by (simp add: map_idI b64val_b64char)
  then have dec: "b64dec (map (\<lambda>c. the (b64val c)) ?body) = s"
    using b64dec_b64sextets[OF assms] by simp
  have "atob (?body @ replicate ?p 61) =
          (let d = stripPadding (?body @ replicate ?p 61)
           in if length d mod 4 = 1 then Inl InvalidCharacterError
              else if list_ex (\<lambda>c. b64val c = None) d then Inl InvalidCharacterError
              else Inr (b64dec (map (\<lambda>c. the (b64val c)) d)))"
    unfolding atob_def filter_append f1 f2 ..
  also have "\<dots> = Inr s"
    unfolding strip Let_def using len vals dec by (simp add: list_ex_iff)
  finally show ?thesis .
qed

lemma unat_byte_bound: "\<forall>b \<in> set (map unat (bytes :: byte list)). b < 256"
proof
  fix b assume "b \<in> set (map unat bytes)"
  then obtain w :: byte where "b = unat w" by auto
  moreover have "unat w < 2 ^ LENGTH(8)" by (rule unsigned_less)
  ultimately show "b < 256" by simp
qed

lemma arrayBufferToBase64_total:
  "arrayBufferToBase64 bytes =
     Inr (map b64char (b64sextets (map unat bytes)) @ replicate (b64padding (length bytes)) 61)"
proof -
  have "\<not> (\<exists>c \<in> set (map unat bytes). 255 < c)"
    using unat_byte_bound[of bytes] by fastforce
  then show ?thesis by (simp add: arrayBufferToBase64_def btoa_def list_ex_iff)
qed

lemma base64_codec_inverse:
  "\<exists>s. arrayBufferToBase64 b = Inr s \<and> base64ToArrayBuffer s = Inr b"
proof -
  let ?s = "map b64char (b64sextets (map unat b)) @ replicate (b64padding (length b)) 61"
  have "atob ?s = Inr (map unat b)"
    using atob_btoa[OF unat_byte_bound, of b] by simp
  then have "base64ToArrayBuffer ?s = Inr b"
    by (simp add: base64ToArrayBuffer_def comp_def)
  then show ?thesis using arrayBufferToBase64_total by blast
qed

text \<open>
  Claim C4. For every byte sequence \<open>b\<close>, the empty one included, \<open>arrayBufferToBase64\<close>
  returns a string (it never throws), and \<open>base64ToArrayBuffer\<close> applied to that string
  returns exactly \<open>b\<close>. Both are functions of their argument alone.
\<close>

theorem base64_round_trip:
  "\<exists>s. arrayBufferToBase64 b = Inr s \<and> base64ToArrayBuffer s = Inr b"
  by (rule base64_codec_inverse)

theorem base64_round_trip_witness:
  "arrayBufferToBase64 [] = Inr [] \<and> base64ToArrayBuffer [] = Inr []
   \<and> (\<exists>s. arrayBufferToBase64 [77, 97] = Inr s \<and> base64ToArrayBuffer s = Inr [77, 97])"
proof -
  have "arrayBufferToBase64 [] = Inr []"
    by (simp add: arrayBufferToBase64_def btoa_def b64padding_def)
  moreover have "base64ToArrayBuffer [] = Inr []"
    by (simp add: base64ToArrayBuffer_def atob_def stripPadding_def)
  ultimately show ?thesis using base64_round_trip [of "[77, 97]"] by simp
qed

section \<open>Properties of \<open>dataUrlToBlob\<close>\<close>

lemma splitOn_not_Nil: "splitOn sep s \<noteq> []"
  by (induction s) (auto split: list.splits)

lemma splitOn_no_sep: "sep \<notin> set s \<Longrightarrow> splitOn sep s = [s]"
  by (induction s) auto

lemma splitOn_first: "sep \<notin> set p \<Longrightarrow> splitOn sep (p @ sep # rest) = p # splitOn sep rest"
  by (induction p) auto

lemma btoa_no_comma:
  assumes "arrayBufferToBase64 b = Inr payload"
  shows "44 \<notin> set payload"
proof -
  from assms have p: "payload = map b64char (b64sextets (map unat b)) @ replicate (b64padding (length b)) 61"
    by (simp add: arrayBufferToBase64_total)
  have "\<forall>c \<in> set (map b64char (b64sextets (map unat b))). c \<noteq> 44"
    using last_b64sextets_char[OF unat_byte_bound, of b] by blast
  then show ?thesis unfolding p by auto
qed

lemma atob_arrayBufferToBase64:
  assumes "arrayBufferToBase64 b = Inr payload"
  shows "atob payload = Inr (map unat b)"
proof -
  from assms have p: "payload = map b64char (b64sextets (map unat b)) @ replicate (b64padding (length b)) 61"
    by (simp add: arrayBufferToBase64_total)
  show ?thesis unfolding p using atob_btoa[OF unat_byte_bound, of b] by simp
qed

lemma plainMime_scan:
  assumes "plainMime mime"
  shows "dropWhile (\<lambda>d. d \<noteq> 59 \<and> \<not> isLineTerminator d) (mime @ 59 # rest) = 59 # rest"
    and "takeWhile (\<lambda>d. d \<noteq> 59 \<and> \<not> isLineTerminator d) (mime @ 59 # rest) = mime"
proof -
  have all: "\<forall>c \<in> set mime. c \<noteq> 59 \<and> \<not> isLineTerminator c"
    using assms by (auto simp: plainMime_def list_all_iff isLineTerminator_def)
  then show "dropWhile (\<lambda>d. d \<noteq> 59 \<and> \<not> isLineTerminator d) (mime @ 59 # rest) = 59 # rest"
    by (simp add: dropWhile_append)
  from all show "takeWhile (\<lambda>d. d \<noteq> 59 \<and> \<not> isLineTerminator d) (mime @ 59 # rest) = mime"
    by (simp add: takeWhile_append)
qed

lemma matchMime_data:
  assumes "plainMime mime"
  shows "matchMime (js ''data:'' @ mime @ js '';base64'') = Some mime"
proof -
  have "js ''data:'' @ mime @ js '';base64'' = [100, 97, 116, 97, 58] @ (mime @ 59 # js ''base64'')"
    by (simp add: js_def)
  then show ?thesis
    using plainMime_scan[OF assms, of "js ''base64''"] by (simp add: reachesSemicolon_def)
qed

lemma newBlob_plainMime:
  assumes "plainMime mime"
  shows "newBlob bytes mime = \<lparr>blobBytes = bytes, blobType = mime\<rparr>"
proof -
  have "\<not> list_ex (\<lambda>c. c < 32 \<or> 126 < c) mime"
    using assms by (auto simp: plainMime_def list_all_iff list_ex_iff)
  moreover have "map asciiLower mime = mime"
    using assms by (auto simp: plainMime_def list_all_iff asciiLower_def intro!: map_idI)
  ultimately show ?thesis by (simp add: newBlob_def)
qed

lemma dataUrlToBlob_one_comma:
  assumes "44 \<notin> set prefix" and "44 \<notin> set payload"
  shows "dataUrlToBlob (prefix @ [44] @ payload) =
           (case atob payload of
              Inl e \<Rightarrow> Inl e
            | Inr bstr \<Rightarrow>
                Inr (newBlob (map word_of_nat bstr)
                       (case matchMime prefix of Some m \<Rightarrow> m | None \<Rightarrow> js ''application/octet-stream'')))"
proof -
  have "splitOn 44 (prefix @ [44] @ payload) = [prefix, payload]"
    using assms by (simp add: splitOn_first splitOn_no_sep)
  then show ?thesis by (simp add: dataUrlToBlob_def split: sum.split)
qed

lemma plainMime_no_comma: "plainMime mime \<Longrightarrow> 44 \<notin> set mime"
  by (auto simp: plainMime_def list_all_iff)

lemma dataUrlToBlob_data_url:
  assumes "plainMime mime" and "arrayBufferToBase64 b = Inr payload"
  shows "dataUrlToBlob (js ''data:'' @ mime @ js '';base64,'' @ payload) = Inr \<lparr>blobBytes = b, blobType = mime\<rparr>"
proof -
  let ?prefix = "js ''data:'' @ mime @ js '';base64''"
  have eq: "js ''data:'' @ mime @ js '';base64,'' @ payload = ?prefix @ [44] @ payload"
    by (simp add: js_def)
  have np: "44 \<notin> set ?prefix"
    using plainMime_no_comma[OF assms(1)] by (simp add: js_def)
  have "dataUrlToBlob (?prefix @ [44] @ payload) = Inr (newBlob (map word_of_nat (map unat b)) mime)"
    using dataUrlToBlob_one_comma[OF np btoa_no_comma[OF assms(2)]]
      atob_arrayBufferToBase64[OF assms(2)] matchMime_data[OF assms(1)] by simp
  then show ?thesis unfolding eq by (simp add: newBlob_plainMime[OF assms(1)] comp_def)
qed

lemma dataUrlToBlob_no_comma:
  assumes "44 \<notin> set s"
  shows "dataUrlToBlob s = Inl InvalidCharacterError"
proof -
  have "atob (js ''undefined'') = Inl InvalidCharacterError"
    by (simp add: atob_def js_def isAsciiWhitespace_def stripPadding_def)
  then show ?thesis using assms by (simp add: dataUrlToBlob_def splitOn_no_sep)
qed


lemma hd_splitOn: "hd (splitOn sep s) = takeWhile (\<lambda>c. c \<noteq> sep) s"
  by (induction s) (auto simp: splitOn_not_Nil split: list.splits)

lemma tl_splitOn:
  "tl (splitOn sep s) =
     (if sep \<in> set s then splitOn sep (drop 1 (dropWhile (\<lambda>c. c \<noteq> sep) s)) else [])"
  by (induction s) (auto simp: splitOn_not_Nil split: list.splits)

lemma second_piece:
  "(case tl (splitOn 44 s) of [] \<Rightarrow> js ''undefined'' | payload # _ \<Rightarrow> payload) =
     (if 44 \<in> set s then betweenFirstCommas s else js ''undefined'')"
proof (cases "44 \<in> set s")
  case True
  let ?rest = "drop 1 (dropWhile (\<lambda>c. c \<noteq> 44) s)"
  obtain piece pieces where p: "splitOn 44 ?rest = piece # pieces"
    using splitOn_not_Nil[of 44 ?rest] by (cases "splitOn 44 ?rest") auto
  have "piece = hd (splitOn 44 ?rest)" using p by simp
  then have "piece = betweenFirstCommas s" by (simp add: hd_splitOn betweenFirstCommas_def)
  then show ?thesis using True p by (simp add: tl_splitOn)
next
  case False
  then show ?thesis by (simp add: tl_splitOn)
qed

lemma reachesSemicolon_eq: "reachesSemicolon cs = semicolonOnLine cs"
proof (induction cs)
  case Nil
  then show ?case by (simp add: reachesSemicolon_def semicolonOnLine_def)
next
  case (Cons c cs)
  have ns: "\<not> isLineTerminator 59" by (simp add: isLineTerminator_def)
  show ?case
  proof (cases "c = 59")
    case True
    then show ?thesis by (simp add: reachesSemicolon_def semicolonOnLine_def)
  next
    case False
    show ?thesis
    proof (cases "isLineTerminator c")
      case True
      then show ?thesis using False by (simp add: reachesSemicolon_def semicolonOnLine_def)
    next
      case nl: False
      have "reachesSemicolon (c # cs) = reachesSemicolon cs"
        using False nl by (simp add: reachesSemicolon_def)
      moreover have "semicolonOnLine (c # cs) = semicolonOnLine cs"
        using False nl by (auto simp: semicolonOnLine_def)
      ultimately show ?thesis using Cons.IH by simp
    qed
  qed
qed

lemma group_on_line:
  "semicolonOnLine cs \<Longrightarrow>
     takeWhile (\<lambda>d. d \<noteq> 59 \<and> \<not> isLineTerminator d) cs = takeWhile (\<lambda>c. c \<noteq> 59) cs"
proof (induction cs)
  case Nil
  then show ?case by simp
next
  case (Cons c cs)
  show ?case
  proof (cases "c = 59")
    case True
    then show ?thesis by simp
  next
    case False
    from Cons.prems False have nl: "\<not> isLineTerminator c" and rest: "semicolonOnLine cs"
      by (auto simp: semicolonOnLine_def)
    from Cons.IH[OF rest] False nl show ?thesis by simp
  qed
qed

lemma declaredType_Cons:
  "declaredType (c # cs) =
     (if c = 58 \<and> semicolonOnLine cs then Some (takeWhile (\<lambda>d. d \<noteq> 59) cs) else declaredType cs)"
proof -
  let ?P = "\<lambda>i. (c # cs) ! i = 58 \<and> semicolonOnLine (drop (Suc i) (c # cs))"
  let ?Q = "\<lambda>i. cs ! i = 58 \<and> semicolonOnLine (drop (Suc i) cs)"
  have "[0 ..< Suc (length cs)] = 0 # [Suc 0 ..< Suc (length cs)]"
    by (rule upt_conv_Cons) simp
  also have "[Suc 0 ..< Suc (length cs)] = map Suc [0 ..< length cs]"
    by (rule map_Suc_upt[symmetric])
  finally have u: "[0 ..< length (c # cs)] = 0 # map Suc [0 ..< length cs]"
    by simp
  have f: "filter ?P (map Suc [0 ..< length cs]) = map Suc (filter ?Q [0 ..< length cs])"
    by (simp add: filter_map comp_def)
  show ?thesis
  proof (cases "c = 58 \<and> semicolonOnLine cs")
    case True
    then have "filter ?P [0 ..< length (c # cs)] = 0 # map Suc (filter ?Q [0 ..< length cs])"
      unfolding u using f by simp
    then show ?thesis using True unfolding declaredType_def by simp
  next
    case False
    then have "filter ?P [0 ..< length (c # cs)] = map Suc (filter ?Q [0 ..< length cs])"
      unfolding u using f by auto
    then show ?thesis using False unfolding declaredType_def
      by (cases "filter ?Q [0 ..< length cs]") auto
  qed
qed

lemma matchMime_declaredType: "matchMime p = declaredType p"
proof (induction p)
  case Nil
  then show ?case by (simp add: declaredType_def)
next
  case (Cons c cs)
  then show ?case
    by (simp add: declaredType_Cons reachesSemicolon_eq group_on_line)
qed

lemma atob_error: "atob t = Inl e \<Longrightarrow> e = InvalidCharacterError"
  by (auto simp: atob_def Let_def split: if_splits)

lemma atob_undefined: "atob (js ''undefined'') = Inl InvalidCharacterError"
  by (simp add: atob_def js_def isAsciiWhitespace_def stripPadding_def)

lemma dataUrlToBlob_parts:
  "dataUrlToBlob s =
     (if 44 \<notin> set s then Inl InvalidCharacterError
      else case atob (betweenFirstCommas s) of
             Inl e \<Rightarrow> Inl InvalidCharacterError
           | Inr bstr \<Rightarrow>
               Inr \<lparr>blobBytes = map word_of_nat bstr,
                    blobType =
                      (let mime = (case declaredType (beforeFirstComma s) of
                                     None \<Rightarrow> js ''application/octet-stream''
                                   | Some m \<Rightarrow> m)
                       in if list_ex (\<lambda>c. c < 32 \<or> 126 < c) mime then [] else map asciiLower mime)\<rparr>)"
proof (cases "44 \<in> set s")
  case False
  then show ?thesis using dataUrlToBlob_no_comma[of s] by simp
next
  case True
  have pre: "hd (splitOn 44 s) = beforeFirstComma s" by (simp add: hd_splitOn beforeFirstComma_def)
  have pay: "(case tl (splitOn 44 s) of [] \<Rightarrow> js ''undefined'' | payload # _ \<Rightarrow> payload) = betweenFirstCommas s"
    using True by (simp add: second_piece)
  show ?thesis
  proof (cases "atob (betweenFirstCommas s)")
    case (Inl e)
    then have "e = InvalidCharacterError" by (rule atob_error)
    then show ?thesis using True Inl unfolding dataUrlToBlob_def Let_def pre pay by simp
  next
    case (Inr bstr)
    then show ?thesis using True unfolding dataUrlToBlob_def Let_def pre pay
      by (simp add: matchMime_declaredType newBlob_def split: option.split)
  qed
qed
section \<open>Properties of \<open>processDocument\<close>\<close>

lemmas sample_defs = sampleEnv_def sampleOptions_def sampleJpeg_def samplePdf_def sampleText_def
  noContextEnv_def js_def

text \<open>
  Claim C5. For every file whose media type is none of \<open>image/jpeg\<close>, \<open>image/png\<close>,
  \<open>image/jpg\<close> and \<open>application/pdf\<close>, \<open>processDocument\<close> fails with the error
  \<open>Unsupported file type: <type>\<close>, whose message names the media type of the file; the
  result is the error alone, no document is returned.
\<close>

theorem processDocument_unsupported:
  assumes "blobType file \<notin> {js ''image/jpeg'', js ''image/png'', js ''image/jpg'', js ''application/pdf''}"
  shows "processDocument env file options = Inl (Error (js ''Unsupported file type: '' @ blobType file))"
proof -
  from assms have "blobType file \<noteq> js ''application/pdf''" by simp
  moreover from assms have "blobType file \<notin> set imageTypes"
    by (simp add: imageTypes_def)
  ultimately show ?thesis by (simp add: processDocument_def)
qed

theorem processDocument_unsupported_witness:
  "blobType sampleText \<notin> {js ''image/jpeg'', js ''image/png'', js ''image/jpg'', js ''application/pdf''}
   \<and> processDocument sampleEnv sampleText sampleOptions = Inl (Error (js ''Unsupported file type: text/plain''))"
proof -
  have h: "blobType sampleText \<notin> {js ''image/jpeg'', js ''image/png'', js ''image/jpg'', js ''application/pdf''}"
    by (simp add: sampleText_def js_def)
  have "js ''Unsupported file type: '' @ blobType sampleText = js ''Unsupported file type: text/plain''"
    by (simp add: sampleText_def js_def)
  with processDocument_unsupported [OF h, of sampleEnv sampleOptions] h show ?thesis by simp
qed

text \<open>
  Claim C1 says that \<open>processDocument\<close> does not throw when the watermarking of a JPEG or
  PNG file fails, and returns the original bytes instead. On a JPEG file whose image decodes
  and for which the canvas gives no 2D context, \<open>processDocument\<close> fails with the error of
  \<open>applyWatermark\<close>: it has no handler of its own.
\<close>

theorem processDocument_fallback_counterexample:
  "blobType sampleJpeg = js ''image/jpeg''
   \<and> decodeImage noContextEnv sampleJpeg \<noteq> None
   \<and> \<not> context2d noContextEnv
   \<and> processDocument noContextEnv sampleJpeg sampleOptions = Inl (Error (js ''Canvas context not available''))"
  by (simp add: processDocument_def applyWatermark_def imageTypes_def sample_defs)

text \<open>
  Claim C1, amended. For every file of an image type, an error of \<open>applyWatermark\<close> is the
  result of \<open>processDocument\<close>, which returns no document then; in particular, when the
  image decodes and the canvas gives no 2D context, \<open>processDocument\<close> fails with
  \<open>Canvas context not available\<close>. (The original file is used by the caller,
  \<open>handleDocumentsSubmit\<close>, which catches the error.)
\<close>

theorem processDocument_propagates_failure:
  assumes "blobType file \<in> set imageTypes"
  shows "(applyWatermark env file (watermarkOptionsOf env options) = Inl e
            \<longrightarrow> processDocument env file options = Inl e)
       \<and> (decodeImage env file = Some img \<and> \<not> context2d env
            \<longrightarrow> processDocument env file options = Inl (Error (js ''Canvas context not available'')))"
proof -
  from assms have np: "blobType file \<noteq> js ''application/pdf''"
    by (auto simp: imageTypes_def js_def)
  note m = assms
  have 1: "applyWatermark env file (watermarkOptionsOf env options) = Inl e
            \<longrightarrow> processDocument env file options = Inl e"
    using np m by (simp add: processDocument_def)
  have "decodeImage env file = Some img \<and> \<not> context2d env
          \<longrightarrow> applyWatermark env file (watermarkOptionsOf env options) = Inl (Error (js ''Canvas context not available''))"
    using m by (simp add: applyWatermark_def)
  then have 2: "decodeImage env file = Some img \<and> \<not> context2d env
          \<longrightarrow> processDocument env file options = Inl (Error (js ''Canvas context not available''))"
    using np m by (simp add: processDocument_def)
  from 1 2 show ?thesis by simp
qed

theorem processDocument_propagates_failure_witness:
  "blobType sampleJpeg \<in> set imageTypes
   \<and> decodeImage noContextEnv sampleJpeg = Some \<lparr>bwidth = 40, bheight = 30, pixel = (\<lambda>x y c. 255)\<rparr>
   \<and> \<not> context2d noContextEnv
   \<and> processDocument noContextEnv sampleJpeg sampleOptions = Inl (Error (js ''Canvas context not available''))"
proof -
  have h: "blobType sampleJpeg \<in> set imageTypes" by (simp add: imageTypes_def sample_defs)
  have d: "decodeImage noContextEnv sampleJpeg = Some \<lparr>bwidth = 40, bheight = 30, pixel = (\<lambda>x y c. 255)\<rparr>"
    by (simp add: sample_defs)
  have c: "\<not> context2d noContextEnv" by (simp add: sample_defs)
  from processDocument_propagates_failure [OF h, of noContextEnv sampleOptions _ "\<lparr>bwidth = 40, bheight = 30, pixel = (\<lambda>x y c. 255)\<rparr>"] h d c
  show ?thesis by blast
qed

text \<open>
  Claim C7. For every file of type \<open>application/pdf\<close>: \<open>applyPdfWatermark\<close> returns the
  data URL of the file's bytes together with the metadata object and both flags
  (\<open>requiresServerProcessing\<close>, \<open>requiresServerWatermark\<close>) set; that data URL decodes to
  the bytes of the file; and \<open>processDocument\<close> returns a document whose blob holds
  exactly the bytes of the file, with the name and type of the file and no \<open>metadataHash\<close>.
  No canvas function takes part.
\<close>

theorem processDocument_pdf:
  assumes "blobType file = js ''application/pdf''"
  shows "\<exists>base64.
           arrayBufferToBase64 (blobBytes file) = Inr base64
         \<and> applyPdfWatermark env file (watermarkOptionsOf env options) =
             Inr \<lparr>prData = js ''data:application/pdf;base64,'' @ base64,
                  requiresServerProcessing = True,
                  prMetadata =
                    \<lparr>pmSessionId = randomUUID env,
                     pmEmailHash = hashEmail env (userEmail options),
                     pmTimestamp = toISOString (now env),
                     pmPurpose = js ''driver_registration'',
                     requiresServerWatermark = True\<rparr>\<rparr>
         \<and> dataUrlToBlob (js ''data:application/pdf;base64,'' @ base64) =
             Inr \<lparr>blobBytes = blobBytes file, blobType = js ''application/pdf''\<rparr>
         \<and> processDocument env file options =
             Inr \<lparr>pdBlob = \<lparr>blobBytes = blobBytes file, blobType = js ''application/pdf''\<rparr>,
                  originalName = fileName file,
                  mimeType = js ''application/pdf'',
                  metadataHash = None,
                  watermarkId = Some (randomUUID env),
                  processedAt = toISOString (now env)\<rparr>"
proof -
  obtain base64 where b: "arrayBufferToBase64 (blobBytes file) = Inr base64"
    using arrayBufferToBase64_total by blast
  have pm: "plainMime (js ''application/pdf'')"
    by (simp add: plainMime_def js_def)
  have "js ''data:'' @ js ''application/pdf'' @ js '';base64,'' @ base64 = js ''data:application/pdf;base64,'' @ base64"
    by (simp add: js_def)
  with dataUrlToBlob_data_url[OF pm b]
  have d: "dataUrlToBlob (js ''data:application/pdf;base64,'' @ base64) =
             Inr \<lparr>blobBytes = blobBytes file, blobType = js ''application/pdf''\<rparr>"
    by simp
  have a: "applyPdfWatermark env file (watermarkOptionsOf env options) =
             Inr \<lparr>prData = js ''data:application/pdf;base64,'' @ base64,
                  requiresServerProcessing = True,
                  prMetadata =
                    \<lparr>pmSessionId = randomUUID env,
                     pmEmailHash = hashEmail env (userEmail options),
                     pmTimestamp = toISOString (now env),
                     pmPurpose = js ''driver_registration'',
                     requiresServerWatermark = True\<rparr>\<rparr>"
    using b by (simp add: applyPdfWatermark_def watermarkOptionsOf_def)
  have p: "processDocument env file options =
             Inr \<lparr>pdBlob = \<lparr>blobBytes = blobBytes file, blobType = js ''application/pdf''\<rparr>,
                  originalName = fileName file,
                  mimeType = js ''application/pdf'',
                  metadataHash = None,
                  watermarkId = Some (randomUUID env),
                  processedAt = toISOString (now env)\<rparr>"
    unfolding processDocument_def Let_def using assms a d by simp
  from b a d p show ?thesis by blast
qed

theorem processDocument_pdf_witness:
  "blobType samplePdf = js ''application/pdf''
   \<and> processDocument sampleEnv samplePdf sampleOptions =
       Inr \<lparr>pdBlob = \<lparr>blobBytes = [37, 80, 68, 70], blobType = js ''application/pdf''\<rparr>,
            originalName = js ''licence.pdf'',
            mimeType = js ''application/pdf'',
            metadataHash = None,
            watermarkId = Some (js ''123e4567-e89b-42d3-a456-426614174000''),
            processedAt = js ''2026-01-02T03:04:05.678Z''\<rparr>"
proof -
  have h: "blobType samplePdf = js ''application/pdf''" by (simp add: samplePdf_def)
  from processDocument_pdf [OF h, of sampleEnv sampleOptions]
  have "processDocument sampleEnv samplePdf sampleOptions =
          Inr \<lparr>pdBlob = \<lparr>blobBytes = blobBytes samplePdf, blobType = js ''application/pdf''\<rparr>,
               originalName = fileName samplePdf,
               mimeType = js ''application/pdf'',
               metadataHash = None,
               watermarkId = Some (randomUUID sampleEnv),
               processedAt = toISOString (now sampleEnv)\<rparr>"
    by blast
  then show ?thesis using h by (simp add: samplePdf_def sampleEnv_def)
qed

text \<open>
  Claim C8 says that \<open>dataUrlToBlob\<close> fails when the prefix is malformed. On the string
  \<open>garbage,QUJD\<close>, which has no \<open>data:<mime>;base64\<close> prefix, it returns the three decoded
  bytes with the type \<open>application/octet-stream\<close>.
\<close>

theorem dataUrlToBlob_malformed_prefix_counterexample:
  "matchMime (js ''garbage'') = None
   \<and> dataUrlToBlob (js ''garbage,QUJD'')
       = Inr \<lparr>blobBytes = [65, 66, 67], blobType = js ''application/octet-stream''\<rparr>"
  by (simp add: dataUrlToBlob_def js_def reachesSemicolon_def isLineTerminator_def atob_def
      stripPadding_def isAsciiWhitespace_def b64val_def newBlob_def asciiLower_def)

text \<open>
  Claim C8, amended. \<open>dataUrlToBlob\<close> never fails because of the prefix. It fails, with
  the \<open>InvalidCharacterError\<close> of \<open>atob\<close>, exactly when the string has no comma or when
  \<open>atob\<close> rejects the text between the first and the second comma (up to the end of the
  string when there is one comma). Otherwise it returns the bytes that \<open>atob\<close> decodes from
  that text, and the media type that the text before the first comma declares: the text
  from the first colon that has a semicolon after it with no line terminator in between, up
  to that semicolon, and \<open>application/octet-stream\<close> when there is no such colon; the \<open>Blob\<close>
  constructor puts this type in ASCII lower case, or makes it empty when it has a character
  outside U+0020..U+007E. In particular, on \<open>data:<mime>;base64,<payload>\<close>, with a
  media type of printable ASCII characters without upper-case letters, commas and semicolons
  and with the base64 encoding of bytes \<open>b\<close> as payload, it returns \<open>b\<close> and the media type.
\<close>

theorem dataUrlToBlob_behaviour:
  "dataUrlToBlob s =
     (if 44 \<notin> set s then Inl InvalidCharacterError
      else case atob (betweenFirstCommas s) of
             Inl e \<Rightarrow> Inl InvalidCharacterError
           | Inr bstr \<Rightarrow>
               Inr \<lparr>blobBytes = map word_of_nat bstr,
                    blobType =
                      (let mime = (case declaredType (beforeFirstComma s) of
                                     None \<Rightarrow> js ''application/octet-stream''
                                   | Some m \<Rightarrow> m)
                       in if list_ex (\<lambda>c. c < 32 \<or> 126 < c) mime then [] else map asciiLower mime)\<rparr>)
   \<and> (plainMime mime \<and> arrayBufferToBase64 b = Inr base64 \<longrightarrow>
        dataUrlToBlob (js ''data:'' @ mime @ js '';base64,'' @ base64) = Inr \<lparr>blobBytes = b, blobType = mime\<rparr>)"
  using dataUrlToBlob_parts[of s] dataUrlToBlob_data_url[of mime b base64] by blast

theorem dataUrlToBlob_behaviour_witness:
  "dataUrlToBlob (js ''nocomma'') = Inl InvalidCharacterError
   \<and> dataUrlToBlob (js ''data:image/png;base64,QU*D'') = Inl InvalidCharacterError
   \<and> atob (js ''QUJD,!!!'') = Inl InvalidCharacterError
   \<and> dataUrlToBlob (js ''x,QUJD,!!!'')
       = Inr \<lparr>blobBytes = [65, 66, 67], blobType = js ''application/octet-stream''\<rparr>
   \<and> dataUrlToBlob (js ''a:b'' @ [8232] @ js ''c;d:E;f,QUJD'')
       = Inr \<lparr>blobBytes = [65, 66, 67], blobType = js ''e''\<rparr>
   \<and> plainMime (js ''image/png'') \<and> arrayBufferToBase64 [65, 66, 67] = Inr (js ''QUJD'')
   \<and> dataUrlToBlob (js ''data:image/png;base64,QUJD'') = Inr \<lparr>blobBytes = [65, 66, 67], blobType = js ''image/png''\<rparr>"
proof -
  have a0: "atob (js ''QU*D'') = Inl InvalidCharacterError"
    by (simp add: atob_def js_def isAsciiWhitespace_def stripPadding_def b64val_def)
  have a1: "atob (js ''QUJD,!!!'') = Inl InvalidCharacterError"
    by (simp add: atob_def js_def isAsciiWhitespace_def stripPadding_def b64val_def)
  have a2: "atob (js ''QUJD'') = Inr [65, 66, 67]"
    by (simp add: atob_def js_def isAsciiWhitespace_def stripPadding_def b64val_def)
  have 1: "dataUrlToBlob (js ''nocomma'') = Inl InvalidCharacterError"
    using dataUrlToBlob_behaviour [of "js ''nocomma''"] by (simp add: js_def)
  have b2: "betweenFirstCommas (js ''data:image/png;base64,QU*D'') = js ''QU*D''"
    by (simp add: betweenFirstCommas_def js_def)
  have 2: "dataUrlToBlob (js ''data:image/png;base64,QU*D'') = Inl InvalidCharacterError"
    using dataUrlToBlob_behaviour [of "js ''data:image/png;base64,QU*D''"]
    unfolding b2 a0 by (simp add: js_def)
  have b3: "betweenFirstCommas (js ''x,QUJD,!!!'') = js ''QUJD''"
    "declaredType (beforeFirstComma (js ''x,QUJD,!!!'')) = None"
    by (simp_all add: betweenFirstCommas_def beforeFirstComma_def declaredType_Cons declaredType_def js_def)
  have 3: "dataUrlToBlob (js ''x,QUJD,!!!'')
       = Inr \<lparr>blobBytes = [65, 66, 67], blobType = js ''application/octet-stream''\<rparr>"
    using dataUrlToBlob_behaviour [of "js ''x,QUJD,!!!''"]
    unfolding b3 a2 by (simp add: js_def asciiLower_def)
  have b4: "betweenFirstCommas (js ''a:b'' @ [8232] @ js ''c;d:E;f,QUJD'') = js ''QUJD''"
    "declaredType (beforeFirstComma (js ''a:b'' @ [8232] @ js ''c;d:E;f,QUJD'')) = Some (js ''E'')"
    by (simp_all add: betweenFirstCommas_def beforeFirstComma_def declaredType_Cons declaredType_def
        semicolonOnLine_def isLineTerminator_def js_def)
  have 4: "dataUrlToBlob (js ''a:b'' @ [8232] @ js ''c;d:E;f,QUJD'')
       = Inr \<lparr>blobBytes = [65, 66, 67], blobType = js ''e''\<rparr>"
    using dataUrlToBlob_behaviour [of "js ''a:b'' @ [8232] @ js ''c;d:E;f,QUJD''"]
    unfolding b4 a2 by (simp add: js_def asciiLower_def)
  have 5: "plainMime (js ''image/png'') \<and> arrayBufferToBase64 [65, 66, 67] = Inr (js ''QUJD'')"
    by (simp add: plainMime_def js_def arrayBufferToBase64_def btoa_def b64char_def b64padding_def)
  have e: "js ''data:'' @ js ''image/png'' @ js '';base64,'' @ js ''QUJD'' = js ''data:image/png;base64,QUJD''"
    by (simp add: js_def)
  have 6: "dataUrlToBlob (js ''data:image/png;base64,QUJD'') = Inr \<lparr>blobBytes = [65, 66, 67], blobType = js ''image/png''\<rparr>"
    using dataUrlToBlob_behaviour [of _ "js ''image/png''" "[65, 66, 67]" "js ''QUJD''"] 5
    unfolding e by blast
  from 1 2 a1 3 4 5 6 show ?thesis by blast
qed
section \<open>Properties of the email hash and the metadata\<close>

lemma toStringRadix16_small: "n < 16 \<Longrightarrow> toStringRadix 16 n = [digitChar n]"
  by (subst toStringRadix.simps) simp

lemma toStringRadix16_byte:
  assumes "n < 256"
  shows "padStart 2 48 (toStringRadix 16 n) = [digitChar (n div 16), digitChar (n mod 16)]"
proof (cases "n < 16")
  case True
  then show ?thesis by (simp add: padStart_def digitChar_def toStringRadix16_small)
next
  case False
  have "n div 16 < 16" using assms by simp
  then have "toStringRadix 16 (n div 16) = [digitChar (n div 16)]" by (rule toStringRadix16_small)
  with False have "toStringRadix 16 n = [digitChar (n div 16), digitChar (n mod 16)]"
    by (subst toStringRadix.simps) simp
  then show ?thesis by (simp add: padStart_def)
qed

lemma unat_byte_less: "unat (b :: byte) < 256"
  using unsigned_less[of b, where 'a = nat] by simp

lemma hex_of_byte:
  "padStart 2 48 (toStringRadix 16 (unat (b :: byte))) = [digitChar (unat b div 16), digitChar (unat b mod 16)]"
  by (rule toStringRadix16_byte) (rule unat_byte_less)

lemma arrayBufferToHex_Nil: "arrayBufferToHex [] = []"
  by (simp add: arrayBufferToHex_def)

lemma arrayBufferToHex_Cons:
  "arrayBufferToHex (b # bs) = digitChar (unat b div 16) # digitChar (unat b mod 16) # arrayBufferToHex bs"
  using hex_of_byte[of b] by (simp add: arrayBufferToHex_def)

lemma length_arrayBufferToHex: "length (arrayBufferToHex bs) = 2 * length bs"
  by (induction bs) (simp_all add: arrayBufferToHex_Nil arrayBufferToHex_Cons)

lemma take_arrayBufferToHex: "take (2 * k) (arrayBufferToHex bs) = arrayBufferToHex (take k bs)"
proof (induction bs arbitrary: k)
  case Nil
  then show ?case by (simp add: arrayBufferToHex_Nil)
next
  case (Cons b bs)
  show ?case
  proof (cases k)
    case 0
    then show ?thesis by (simp add: arrayBufferToHex_Nil)
  next
    case (Suc j)
    then show ?thesis using Cons.IH[of j] by (simp add: arrayBufferToHex_Cons)
  qed
qed

lemma hashEmail_first_8_bytes:
  "hashEmail env email = arrayBufferToHex (take 8 (sha256 env (utf8 env (toLowerCase env email))))"
  using take_arrayBufferToHex[of 8] by (simp add: hashEmail_def)

text \<open>
  Claim C9. The email hash of the watermark metadata is the first 16 characters of the
  hexadecimal SHA-256 digest of the email in lower case, which are the first 8 bytes (64
  bits) of the digest written in hexadecimal; so two emails with the same lower-case form,
  in particular two ASCII emails that differ in letter case only, give the same email hash.
\<close>

theorem emailHash_is_prefix_of_digest:
  "emailHash (watermarkMetadata env options) =
     take 16 (arrayBufferToHex (sha256 env (utf8 env (toLowerCase env (wmEmail options)))))
   \<and> emailHash (watermarkMetadata env options) =
     arrayBufferToHex (take 8 (sha256 env (utf8 env (toLowerCase env (wmEmail options)))))
   \<and> (8 \<le> length (sha256 env (utf8 env (toLowerCase env (wmEmail options))))
        \<longrightarrow> length (emailHash (watermarkMetadata env options)) = 16)
   \<and> (toLowerCase env (wmEmail options) = toLowerCase env email'
        \<longrightarrow> emailHash (watermarkMetadata env (options\<lparr>wmEmail := email'\<rparr>))
            = emailHash (watermarkMetadata env options))
   \<and> (list_all (\<lambda>c. c < 128) (wmEmail options) \<and> list_all (\<lambda>c. c < 128) email'
        \<and> map asciiLower (wmEmail options) = map asciiLower email'
        \<longrightarrow> emailHash (watermarkMetadata env (options\<lparr>wmEmail := email'\<rparr>))
            = emailHash (watermarkMetadata env options))"
proof -
  have 1: "emailHash (watermarkMetadata env options) =
     take 16 (arrayBufferToHex (sha256 env (utf8 env (toLowerCase env (wmEmail options)))))"
    by (simp add: watermarkMetadata_def hashEmail_def)
  have 2: "emailHash (watermarkMetadata env options) =
     arrayBufferToHex (take 8 (sha256 env (utf8 env (toLowerCase env (wmEmail options)))))"
    by (simp add: watermarkMetadata_def hashEmail_first_8_bytes)
  have 3: "8 \<le> length (sha256 env (utf8 env (toLowerCase env (wmEmail options))))
        \<longrightarrow> length (emailHash (watermarkMetadata env options)) = 16"
    unfolding 2 by (simp add: length_arrayBufferToHex)
  have 4: "toLowerCase env (wmEmail options) = toLowerCase env email'
        \<longrightarrow> emailHash (watermarkMetadata env (options\<lparr>wmEmail := email'\<rparr>))
            = emailHash (watermarkMetadata env options)"
    by (simp add: watermarkMetadata_def hashEmail_def)
  have 5: "list_all (\<lambda>c. c < 128) (wmEmail options) \<and> list_all (\<lambda>c. c < 128) email'
        \<and> map asciiLower (wmEmail options) = map asciiLower email'
        \<longrightarrow> emailHash (watermarkMetadata env (options\<lparr>wmEmail := email'\<rparr>))
            = emailHash (watermarkMetadata env options)"
    by (simp add: watermarkMetadata_def hashEmail_def toLowerCase_def)
  from 1 2 3 4 5 show ?thesis by blast
qed

theorem emailHash_is_prefix_of_digest_witness:
  "emailHash (watermarkMetadata sampleEnv sampleWatermarkOptions) = js ''6a616e652e646f65''
   \<and> length (emailHash (watermarkMetadata sampleEnv sampleWatermarkOptions)) = 16
   \<and> emailHash (watermarkMetadata sampleEnv (sampleWatermarkOptions\<lparr>wmEmail := js ''jane.doe@example.com''\<rparr>))
       = js ''6a616e652e646f65''"
proof -
  note t = emailHash_is_prefix_of_digest [of sampleEnv sampleWatermarkOptions "js ''jane.doe@example.com''"]
  have ascii: "list_all (\<lambda>c. c < 128) (wmEmail sampleWatermarkOptions)
        \<and> list_all (\<lambda>c. c < 128) (js ''jane.doe@example.com'')
        \<and> map asciiLower (wmEmail sampleWatermarkOptions) = map asciiLower (js ''jane.doe@example.com'')"
    by (simp add: sampleWatermarkOptions_def js_def asciiLower_def)
  have digest: "sha256 sampleEnv (utf8 sampleEnv (toLowerCase sampleEnv (wmEmail sampleWatermarkOptions)))
        = map word_of_nat (js ''jane.doe@example.com'') @ replicate 12 0"
    by (simp add: sampleEnv_def sampleWatermarkOptions_def toLowerCase_def js_def asciiLower_def)
  have len: "8 \<le> length (sha256 sampleEnv (utf8 sampleEnv (toLowerCase sampleEnv (wmEmail sampleWatermarkOptions))))"
    unfolding digest by (simp add: js_def)
  have hex: "arrayBufferToHex (take 8 (sha256 sampleEnv (utf8 sampleEnv (toLowerCase sampleEnv (wmEmail sampleWatermarkOptions)))))
        = js ''6a616e652e646f65''"
    unfolding digest by (simp add: js_def arrayBufferToHex_Cons arrayBufferToHex_Nil digitChar_def)
  from t have "emailHash (watermarkMetadata sampleEnv sampleWatermarkOptions) =
      arrayBufferToHex (take 8 (sha256 sampleEnv (utf8 sampleEnv (toLowerCase sampleEnv (wmEmail sampleWatermarkOptions)))))"
    by blast
  also note hex
  finally have a: "emailHash (watermarkMetadata sampleEnv sampleWatermarkOptions) = js ''6a616e652e646f65''" .
  from t len have b: "length (emailHash (watermarkMetadata sampleEnv sampleWatermarkOptions)) = 16"
    by blast
  from t ascii have "emailHash (watermarkMetadata sampleEnv (sampleWatermarkOptions\<lparr>wmEmail := js ''jane.doe@example.com''\<rparr>))
        = emailHash (watermarkMetadata sampleEnv sampleWatermarkOptions)"
    by blast
  with a have c: "emailHash (watermarkMetadata sampleEnv (sampleWatermarkOptions\<lparr>wmEmail := js ''jane.doe@example.com''\<rparr>))
        = js ''6a616e652e646f65''"
    by simp
  from a b c show ?thesis by blast
qed




section \<open>Properties of \<open>encryptData\<close>\<close>

lemma getRandomValues_eq:
  "getRandomValues src n =
     (map (randomBytes src) [position src ..< position src + n], src\<lparr>position := position src + n\<rparr>)"
  by (simp add: getRandomValues_def)

text \<open>
  Claim C3. Every call of \<open>encryptData\<close> takes the next 12 bytes (96 bits) of the random
  source as initialization vector and passes them to the cipher; when the cipher returns the
  ciphertext with its tag, the result is a base64 string that decodes to the vector followed
  by the ciphertext and tag, so that the first 12 bytes of the package are the vector and its
  length is 12 plus the length of the ciphertext with tag. The call leaves the random source
  12 bytes further, so the vector of the next call is made of the 12 bytes that follow: each
  call draws its own vector.
\<close>

theorem encryptData_package:
  assumes "subtleEncrypt key (map (randomBytes src) [position src ..< position src + 12]) 128 data = Inr ciphertext"
  shows "\<exists>package.
           encryptData subtleEncrypt src data key = (Inr package, src\<lparr>position := position src + 12\<rparr>)
         \<and> base64ToArrayBuffer package = Inr (map (randomBytes src) [position src ..< position src + 12] @ ciphertext)
         \<and> length (map (randomBytes src) [position src ..< position src + 12]) = 12
         \<and> take 12 (map (randomBytes src) [position src ..< position src + 12] @ ciphertext)
             = map (randomBytes src) [position src ..< position src + 12]
         \<and> length (map (randomBytes src) [position src ..< position src + 12] @ ciphertext) = 12 + length ciphertext
         \<and> fst (getRandomValues (src\<lparr>position := position src + 12\<rparr>) IV_LENGTH)
             = map (randomBytes src) [position src + 12 ..< position src + 24]"
proof -
  let ?iv = "map (randomBytes src) [position src ..< position src + 12]"
  obtain package where p: "arrayBufferToBase64 (?iv @ ciphertext) = Inr package"
    and r: "base64ToArrayBuffer package = Inr (?iv @ ciphertext)"
    using base64_codec_inverse by blast
  have e: "encryptData subtleEncrypt src data key = (Inr package, src\<lparr>position := position src + 12\<rparr>)"
    using assms p by (simp add: encryptData_def getRandomValues_def IV_LENGTH_def TAG_LENGTH_def)
  have n: "fst (getRandomValues (src\<lparr>position := position src + 12\<rparr>) IV_LENGTH)
             = map (randomBytes src) [position src + 12 ..< position src + 24]"
    by (simp add: getRandomValues_def IV_LENGTH_def add.commute)
  show ?thesis
  proof (intro exI[of _ package] conjI)
    show "encryptData subtleEncrypt src data key = (Inr package, src\<lparr>position := position src + 12\<rparr>)"
      by (rule e)
    show "base64ToArrayBuffer package = Inr (?iv @ ciphertext)" by (rule r)
    show "length ?iv = 12" by simp
    show "take 12 (?iv @ ciphertext) = ?iv" by simp
    show "length (?iv @ ciphertext) = 12 + length ciphertext" by simp
    show "fst (getRandomValues (src\<lparr>position := position src + 12\<rparr>) IV_LENGTH)
             = map (randomBytes src) [position src + 12 ..< position src + 24]"
      by (rule n)
  qed
qed

theorem encryptData_package_witness:
  "sampleCipher 90 (map (randomBytes sampleSource) [position sampleSource ..< position sampleSource + 12]) 128 [1, 2, 3]
     = Inr [90, 89, 88, 0, 0, 0, 0, 0, 0, 0, 0, 0, 0, 0, 0, 0, 0, 0, 0]
   \<and> (\<exists>package.
        encryptData sampleCipher sampleSource [1, 2, 3] 90 = (Inr package, sampleSource\<lparr>position := 12\<rparr>)
      \<and> base64ToArrayBuffer package =
          Inr ([1, 8, 15, 22, 29, 36, 43, 50, 57, 64, 71, 78] @ [90, 89, 88, 0, 0, 0, 0, 0, 0, 0, 0, 0, 0, 0, 0, 0, 0, 0, 0]))
   \<and> fst (getRandomValues (sampleSource\<lparr>position := 12\<rparr>) IV_LENGTH)
       = [85, 92, 99, 106, 113, 120, 127, 134, 141, 148, 155, 162]"
proof -
  have iv: "map (randomBytes sampleSource) [position sampleSource ..< position sampleSource + 12]
        = [1, 8, 15, 22, 29, 36, 43, 50, 57, 64, 71, 78]"
    by code_simp
  have iv2: "map (randomBytes sampleSource) [position sampleSource + 12 ..< position sampleSource + 24]
        = [85, 92, 99, 106, 113, 120, 127, 134, 141, 148, 155, 162]"
    by code_simp
  have p: "position sampleSource = 0" by (simp add: sampleSource_def)
  have h: "sampleCipher 90 (map (randomBytes sampleSource) [position sampleSource ..< position sampleSource + 12]) 128 [1, 2, 3]
     = Inr [90, 89, 88, 0, 0, 0, 0, 0, 0, 0, 0, 0, 0, 0, 0, 0, 0, 0, 0]"
    unfolding iv by code_simp
  from encryptData_package [of sampleCipher 90 sampleSource "[1, 2, 3]" "[90, 89, 88, 0, 0, 0, 0, 0, 0, 0, 0, 0, 0, 0, 0, 0, 0, 0, 0]"] h
  have "\<exists>package.
           encryptData sampleCipher sampleSource [1, 2, 3] 90 = (Inr package, sampleSource\<lparr>position := position sampleSource + 12\<rparr>)
         \<and> base64ToArrayBuffer package =
             Inr (map (randomBytes sampleSource) [position sampleSource ..< position sampleSource + 12]
                  @ [90, 89, 88, 0, 0, 0, 0, 0, 0, 0, 0, 0, 0, 0, 0, 0, 0, 0, 0])"
    and "fst (getRandomValues (sampleSource\<lparr>position := position sampleSource + 12\<rparr>) IV_LENGTH)
             = map (randomBytes sampleSource) [position sampleSource + 12 ..< position sampleSource + 24]"
    by blast+
  then show ?thesis using h unfolding iv iv2 unfolding p by simp
qed

section \<open>Properties of the submission handler\<close>





















section \<open>Properties of the invisible watermark\<close>

lemma stride_arith:
  fixes k :: nat
  assumes "k \<noteq> 0"
  shows "(4 \<le> k \<and> (k - 4) mod 4 = 0 \<and> t + 1 + (k - 4) div 4 < L) = (k mod 4 = 0 \<and> t + k div 4 < L)"
proof (cases "k mod 4 = 0")
  case True
  then have "4 dvd k" by (simp add: mod_eq_0_iff_dvd)
  then obtain m where m: "k = 4 * m" by (rule dvdE)
  with assms have "m \<noteq> 0" by simp
  then obtain n where n: "m = Suc n" by (cases m) simp_all
  show ?thesis unfolding m n by simp
next
  case False
  have "\<not> (4 \<le> k \<and> (k - 4) mod 4 = 0)"
  proof
    assume a: "4 \<le> k \<and> (k - 4) mod 4 = 0"
    then have "4 dvd (k - 4)" by (simp add: mod_eq_0_iff_dvd)
    then obtain m where "k - 4 = 4 * m" by (rule dvdE)
    with a have "k = 4 * (m + 1)" by simp
    then have "k mod 4 = 0" by simp
    with False show False by simp
  qed
  with False show ?thesis by simp
qed

lemma length_embedStep [simp]: "length (fst (embedStep data binary i t)) = length data"
  by (simp add: embedStep_def)

lemma length_embedBits: "length (embedBits data binary i t) = length data"
proof (induction data binary i t rule: embedBits.induct)
  case (1 data binary i t)
  show ?case
  proof (cases "i < length data \<and> t < length binary")
    case True
    then have "embedBits data binary i t =
        embedBits (fst (embedStep data binary i t)) binary (i + 4) (snd (embedStep data binary i t))"
      by (subst embedBits.simps) auto
    then show ?thesis using 1 True by simp
  next
    case False
    then have "embedBits data binary i t = data"
      by (subst embedBits.simps) auto
    then show ?thesis by simp
  qed
qed

lemma embedBits_nth:
  "j < length data \<Longrightarrow>
   embedBits data binary i t ! j =
     (if i + 2 \<le> j \<and> (j - (i + 2)) mod 4 = 0 \<and> t + (j - (i + 2)) div 4 < length binary
      then (data ! j AND 0xFE) OR parseBit (binary ! (t + (j - (i + 2)) div 4))
      else data ! j)"
proof (induction data binary i t rule: embedBits.induct)
  case (1 data binary i t)
  show ?case
  proof (cases "i < length data \<and> t < length binary")
    case False
    then have "embedBits data binary i t = data" by (subst embedBits.simps) auto
    moreover have "\<not> (i + 2 \<le> j \<and> (j - (i + 2)) mod 4 = 0 \<and> t + (j - (i + 2)) div 4 < length binary)"
      using False "1.prems" by auto
    ultimately show ?thesis by (simp only: if_False)
  next
    case True
    let ?data' = "fst (embedStep data binary i t)"
    have step: "embedStep data binary i t =
        (if i + 2 < length data
         then data[i + 2 := (data ! (i + 2) AND 0xFE) OR parseBit (binary ! t)]
         else data, t + 1)"
      using True by (simp add: embedStep_def)
    have unf: "embedBits data binary i t = embedBits ?data' binary (i + 4) (t + 1)"
      using True step by (subst embedBits.simps) auto
    have j': "j < length ?data'" using "1.prems" by simp
    have IH: "embedBits ?data' binary (i + 4) (t + 1) ! j =
       (if i + 4 + 2 \<le> j \<and> (j - (i + 4 + 2)) mod 4 = 0 \<and> t + 1 + (j - (i + 4 + 2)) div 4 < length binary
        then (?data' ! j AND 0xFE) OR parseBit (binary ! (t + 1 + (j - (i + 4 + 2)) div 4))
        else ?data' ! j)"
      using "1.IH"[OF True j'] step by simp
    show ?thesis
    proof (cases "j = i + 2")
      case True
      then have "?data' ! j = (data ! j AND 0xFE) OR parseBit (binary ! t)"
        using step "1.prems" by simp
      then show ?thesis unfolding unf IH using True \<open>i < length data \<and> t < length binary\<close> by simp
    next
      case False
      then have same: "?data' ! j = data ! j" using step by simp
      show ?thesis
      proof (cases "j < i + 2")
        case True
        then show ?thesis unfolding unf IH same by simp
      next
        case far: False
        then obtain k where k: "j = i + 2 + k" using le_Suc_ex[of "i + 2" j] by auto
        with False have k0: "k \<noteq> 0" by simp
        have c: "(4 \<le> k \<and> (k - 4) mod 4 = 0 \<and> t + 1 + (k - 4) div 4 < length binary)
            = (k mod 4 = 0 \<and> t + k div 4 < length binary)"
          using k0 by (rule stride_arith)
        have d: "k mod 4 = 0 \<Longrightarrow> t + 1 + (k - 4) div 4 = t + k div 4"
        proof -
          assume "k mod 4 = 0"
          then have "4 dvd k" by (simp add: mod_eq_0_iff_dvd)
          then obtain m where m: "k = 4 * m" by (rule dvdE)
          with k0 obtain n where "m = Suc n" by (cases m) simp_all
          with m show ?thesis by simp
        qed
        have e1: "(i + 4 + 2 \<le> j) = (4 \<le> k)" "j - (i + 4 + 2) = k - 4"
          unfolding k by simp_all
        have e2: "i + 2 \<le> j" "j - (i + 2) = k"
          unfolding k by simp_all
        have lhs: "embedBits data binary i t ! j =
            (if 4 \<le> k \<and> (k - 4) mod 4 = 0 \<and> t + 1 + (k - 4) div 4 < length binary
             then (data ! j AND 0xFE) OR parseBit (binary ! (t + 1 + (k - 4) div 4))
             else data ! j)"
          unfolding unf IH same e1 by (rule refl)
        show ?thesis
        proof (cases "k mod 4 = 0 \<and> t + k div 4 < length binary")
          case True
          then have "4 \<le> k \<and> (k - 4) mod 4 = 0 \<and> t + 1 + (k - 4) div 4 < length binary"
            using c by simp
          then have "embedBits data binary i t ! j
              = (data ! j AND 0xFE) OR parseBit (binary ! (t + 1 + (k - 4) div 4))"
            unfolding lhs by (rule if_P)
          also have "t + 1 + (k - 4) div 4 = t + k div 4" using True d by simp
          finally show ?thesis using True e2 by simp
        next
          case False
          then have "\<not> (4 \<le> k \<and> (k - 4) mod 4 = 0 \<and> t + 1 + (k - 4) div 4 < length binary)"
            using c by simp
          then have "embedBits data binary i t ! j = data ! j"
            unfolding lhs by (rule if_not_P)
          then show ?thesis using False e2 by auto
        qed
      qed
    qed
  qed
qed

lemma toStringRadix2: "toStringRadix 2 n = (if n < 2 then [48 + n] else toStringRadix 2 (n div 2) @ [48 + n mod 2])"
proof -
  have "n mod 2 < 10" by simp
  then show ?thesis by (subst toStringRadix.simps) (simp add: digitChar_def)
qed

lemma toStringRadix2_not_Nil: "toStringRadix 2 n \<noteq> []"
  by (subst toStringRadix2) simp

lemma padStart_binary_step:
  "padStart (Suc (Suc k)) 48 (toStringRadix 2 n) = padStart (Suc k) 48 (toStringRadix 2 (n div 2)) @ [48 + n mod 2]"
proof (cases "n < 2")
  case True
  then have z: "n div 2 = 0" by simp
  have "toStringRadix 2 n = [48 + n]" using True by (subst toStringRadix2) simp
  moreover have "toStringRadix 2 0 = [48]" by (subst toStringRadix2) simp
  ultimately show ?thesis using True z by (simp add: padStart_def replicate_append_same)
next
  case False
  then have "toStringRadix 2 n = toStringRadix 2 (n div 2) @ [48 + n mod 2]"
    by (subst toStringRadix2) simp
  then show ?thesis by (simp add: padStart_def)
qed

lemma padStart_8_binary:
  assumes "c < 256"
  shows "padStart 8 48 (toStringRadix 2 c) = eightBitsMSBFirst c"
proof -
  have e: "(8::nat) = Suc (Suc (Suc (Suc (Suc (Suc (Suc (Suc 0)))))))" by simp
  have top: "c div 128 < 2" using assms by simp
  have t: "toStringRadix 2 (c div 128) = [48 + c div 128]"
    using top by (subst toStringRadix2) simp
  have d: "c div 2 div 2 = c div 4" "c div 4 div 2 = c div 8" "c div 8 div 2 = c div 16"
    "c div 16 div 2 = c div 32" "c div 32 div 2 = c div 64" "c div 64 div 2 = c div 128"
    by (simp_all add: div_mult2_eq[symmetric])
  have "padStart 8 48 (toStringRadix 2 c) =
      padStart (Suc 0) 48 (toStringRadix 2 (c div 128))
      @ [48 + c div 64 mod 2, 48 + c div 32 mod 2, 48 + c div 16 mod 2, 48 + c div 8 mod 2,
         48 + c div 4 mod 2, 48 + c div 2 mod 2, 48 + c mod 2]"
    unfolding e padStart_binary_step by (simp add: d)
  also have "padStart (Suc 0) 48 (toStringRadix 2 (c div 128)) = [48 + c div 128]"
    unfolding t by (simp add: padStart_def)
  finally show ?thesis using top by (simp add: eightBitsMSBFirst_def)
qed

lemma textToBinary_latin1:
  assumes "list_all (\<lambda>c. c < 256) s"
  shows "textToBinary s = eightBitsPerCharacter s"
  using assms
  by (induction s) (simp_all add: textToBinary_def eightBitsPerCharacter_def padStart_8_binary)

lemma length_eightBitsPerCharacter: "length (eightBitsPerCharacter s) = 8 * length s"
  by (induction s) (simp_all add: eightBitsPerCharacter_def eightBitsMSBFirst_def)

lemma toStringRadix2_digits: "set (toStringRadix 2 n) \<subseteq> {48, 49}"
proof (induction n rule: less_induct)
  case (less n)
  show ?case
  proof (cases "n < 2")
    case True
    then have "n = 0 \<or> n = 1" by auto
    then show ?thesis by (subst toStringRadix2) auto
  next
    case False
    then have "set (toStringRadix 2 (n div 2)) \<subseteq> {48, 49}" using less.IH[of "n div 2"] by simp
    moreover have "n mod 2 = 0 \<or> n mod 2 = 1" by auto
    ultimately show ?thesis using False by (subst toStringRadix2) auto
  qed
qed

lemma textToBinary_digits: "set (textToBinary s) \<subseteq> {48, 49}"
  using toStringRadix2_digits by (auto simp: textToBinary_def padStart_def)

lemma parseBit_digit: "c \<in> {48, 49} \<Longrightarrow> parseBit c = (if c = 49 then 1 else 0)"
  by (auto simp: parseBit_def)

lemma textToBinary_length_ge: "length s \<le> length (textToBinary s)"
proof (induction s)
  case Nil
  then show ?case by (simp add: textToBinary_def)
next
  case (Cons c cs)
  have "1 \<le> length (padStart 8 48 (toStringRadix 2 c))"
    using toStringRadix2_not_Nil[of c] by (cases "toStringRadix 2 c") (simp_all add: padStart_def)
  then show ?case using Cons by (simp add: textToBinary_def)
qed

lemma JSON_stringify_not_Nil: "JSON_stringify m \<noteq> []"
  by (simp add: JSON_stringify_def js_def)

lemma textToBinary_JSON_not_Nil: "textToBinary (JSON_stringify m) \<noteq> []"
proof -
  have "0 < length (JSON_stringify m)" using JSON_stringify_not_Nil by simp
  then have "0 < length (textToBinary (JSON_stringify m))"
    using textToBinary_length_ge[of "JSON_stringify m"] by linarith
  then show ?thesis by simp
qed

lemma lsb_only_one: "(((v::byte) AND 0xFE) OR 1) AND 0xFE = v AND 0xFE \<and> (((v::byte) AND 0xFE) OR 1) AND 1 = 1"
  by (simp add: bit.conj_disj_distrib2 and.assoc)

lemma lsb_only_zero: "(((v::byte) AND 0xFE) OR 0) AND 0xFE = v AND 0xFE \<and> (((v::byte) AND 0xFE) OR 0) AND 1 = 0"
  by (simp add: and.assoc)

lemma raster_index:
  assumes "dx < (rs::nat)"
  shows "(dy * rs + dx) mod rs = dx" and "(dy * rs + dx) div rs = dy"
  using assms by simp_all

lemma channel_index:
  assumes "c < (4::nat)"
  shows "(4 * p + c) div 4 = p" and "(4 * p + c) mod 4 = c"
    and "(2 \<le> 4 * p + c \<and> (4 * p + c - 2) mod 4 = 0) = (c = 2)"
    and "c = 2 \<Longrightarrow> (4 * p + c - 2) div 4 = p"
proof -
  show "(4 * p + c) div 4 = p" using assms by simp
  show "(4 * p + c) mod 4 = c" using assms by simp
  show "(2 \<le> 4 * p + c \<and> (4 * p + c - 2) mod 4 = 0) = (c = 2)" using assms by presburger
  show "c = 2 \<Longrightarrow> (4 * p + c - 2) div 4 = p" by simp
qed

lemma regionSize_le: "regionSize w h \<le> w \<and> regionSize w h \<le> h"
proof -
  have "w div 10 \<le> w" "h div 10 \<le> h" by simp_all
  then show ?thesis unfolding regionSize_def by linarith
qed

text \<open>
  The effect of \<open>applyInvisibleWatermark\<close> on the canvas, for every canvas and metadata
  whose bit string fits into the region: the call succeeds, the size is unchanged, a pixel
  outside the region is unchanged, and a pixel of the region is what the backing store keeps
  of the pixel written, which is the old pixel with, for the first \<open>length binary\<close> pixels of
  the region in raster order, the lowest bit of the blue value replaced by the bit of that
  index.
\<close>

lemma applyInvisibleWatermark_pixels:
  assumes rs: "rs = regionSize (bwidth ctx) (bheight ctx)"
    and bin: "binary = textToBinary (JSON_stringify metadata)"
    and cap: "length binary \<le> rs * rs"
  shows "\<exists>cv. applyInvisibleWatermark ctx metadata (bwidth ctx) (bheight ctx) = Inr cv
           \<and> bwidth cv = bwidth ctx \<and> bheight cv = bheight ctx
           \<and> (\<forall>x y c. pixel cv x y c =
                 (if bwidth ctx - rs \<le> x \<and> x < bwidth ctx \<and> bheight ctx - rs \<le> y \<and> y < bheight ctx
                     \<and> c < 4
                  then storedPixel ctx
                         (\<lambda>k. if k < 4
                               then if k = 2 \<and> (y - (bheight ctx - rs)) * rs + (x - (bwidth ctx - rs)) < length binary
                                    then (pixel ctx x y 2 AND 0xFE)
                                         OR parseBit (binary ! ((y - (bheight ctx - rs)) * rs + (x - (bwidth ctx - rs))))
                                    else pixel ctx x y k
                               else 0) c
                  else pixel ctx x y c))"
proof -
  let ?w = "bwidth ctx" and ?h = "bheight ctx"
  let ?x0 = "?w - rs" and ?y0 = "?h - rs"
  let ?D = "map (\<lambda>i. canvasPixel ctx (?x0 + (i div 4) mod rs) (?y0 + (i div 4) div rs) (i mod 4))
                [0 ..< 4 * rs * rs]"
  let ?cv = "putImageData ctx \<lparr>idWidth = rs, idHeight = rs, idData = embedBits ?D binary 0 0\<rparr> ?x0 ?y0"
  have "binary \<noteq> []" unfolding bin by (rule textToBinary_JSON_not_Nil)
  then have "0 < length binary" by simp
  then have "0 < rs * rs" using cap by linarith
  then have pos: "0 < rs" by simp
  have le: "rs \<le> ?w" "rs \<le> ?h" using regionSize_le[of ?w ?h] rs by simp_all
  have g: "getImageData ctx ?x0 ?y0 rs rs = Inr \<lparr>idWidth = rs, idHeight = rs, idData = ?D\<rparr>"
    using pos by (simp add: getImageData_def)
  have run: "applyInvisibleWatermark ctx metadata ?w ?h = Inr ?cv"
    unfolding applyInvisibleWatermark_def Let_def rs[symmetric] bin[symmetric] g by simp
  have px: "pixel ?cv x y c =
                 (if ?x0 \<le> x \<and> x < ?w \<and> ?y0 \<le> y \<and> y < ?h \<and> c < 4
                  then storedPixel ctx
                         (\<lambda>k. if k < 4
                               then if k = 2 \<and> (y - ?y0) * rs + (x - ?x0) < length binary
                                    then (pixel ctx x y 2 AND 0xFE)
                                         OR parseBit (binary ! ((y - ?y0) * rs + (x - ?x0)))
                                    else pixel ctx x y k
                               else 0) c
                  else pixel ctx x y c)" for x y c
  proof (cases "?x0 \<le> x \<and> x < ?w \<and> ?y0 \<le> y \<and> y < ?h \<and> c < 4")
    case False
    then have "pixel ?cv x y c = pixel ctx x y c"
      using le by (auto simp: putImageData_def)
    then show ?thesis using False by (simp only: if_False)
  next
    case True
    let ?p = "(y - ?y0) * rs + (x - ?x0)"
    have dx: "x - ?x0 < rs" and dy: "y - ?y0 < rs" using True le by auto
    have "(y - ?y0) * rs \<le> (rs - 1) * rs" using dy by (simp add: mult_le_mono1)
    then have "?p < (rs - 1) * rs + rs" using dx by linarith
    also have "(rs - 1) * rs + rs = rs * rs" using pos by (cases rs) simp_all
    finally have p: "?p < rs * rs" .
    have lenD: "length ?D = 4 * rs * rs" by simp
    define E where "E = embedBits ?D binary 0 0"
    have "pixel (putImageData ctx \<lparr>idWidth = rs, idHeight = rs, idData = E\<rparr> ?x0 ?y0) x y c =
        storedPixel ctx (\<lambda>k. if k < 4 then E ! (4 * ?p + k) else 0) c"
      using True le by (simp add: putImageData_def cong: if_cong)
    then have inreg: "pixel ?cv x y c =
        storedPixel ctx (\<lambda>k. if k < 4 then embedBits ?D binary 0 0 ! (4 * ?p + k) else 0) c"
      unfolding E_def .
    define p where "p = ?p"
    have val: "embedBits ?D binary 0 0 ! (4 * p + k) =
        (if k = 2 \<and> p < length binary
         then (pixel ctx x y 2 AND 0xFE) OR parseBit (binary ! p)
         else pixel ctx x y k)" if k4: "k < 4" for k
    proof -
      have j: "4 * p + k < 4 * rs * rs" using p k4 unfolding p_def by simp
      have Dj: "?D ! (4 * p + k) = pixel ctx x y k"
      proof -
        have "?D ! (4 * p + k) =
            canvasPixel ctx (?x0 + ((4 * p + k) div 4) mod rs) (?y0 + ((4 * p + k) div 4) div rs) ((4 * p + k) mod 4)"
          using j by (simp only: nth_map_upt lenD) simp
        also have "(4 * p + k) div 4 = p" using k4 by (simp add: channel_index(1))
        also have "(4 * p + k) mod 4 = k" using k4 by (simp add: channel_index(2))
        also have "p mod rs = x - ?x0" unfolding p_def using dx by (rule raster_index(1))
        also have "p div rs = y - ?y0" unfolding p_def using dx by (rule raster_index(2))
        also have "?x0 + (x - ?x0) = x" using True by simp
        also have "?y0 + (y - ?y0) = y" using True by simp
        finally show ?thesis using True by (simp add: canvasPixel_def)
      qed
      have nth: "embedBits ?D binary 0 0 ! (4 * p + k) =
          (if 0 + 2 \<le> 4 * p + k \<and> (4 * p + k - (0 + 2)) mod 4 = 0
                \<and> 0 + (4 * p + k - (0 + 2)) div 4 < length binary
           then (?D ! (4 * p + k) AND 0xFE) OR parseBit (binary ! (0 + (4 * p + k - (0 + 2)) div 4))
           else ?D ! (4 * p + k))"
        using j lenD by (intro embedBits_nth) simp
      show ?thesis
      proof (cases "k = 2")
        case k2: True
        have jj: "0 + 2 \<le> 4 * p + k" "(4 * p + k - (0 + 2)) mod 4 = 0" "0 + (4 * p + k - (0 + 2)) div 4 = p"
          using k2 by simp_all
        have "embedBits ?D binary 0 0 ! (4 * p + k) =
            (if p < length binary then (?D ! (4 * p + k) AND 0xFE) OR parseBit (binary ! p) else ?D ! (4 * p + k))"
          unfolding nth using jj by simp
        then show ?thesis using Dj k2 by simp
      next
        case k2: False
        have "\<not> (0 + 2 \<le> 4 * p + k \<and> (4 * p + k - (0 + 2)) mod 4 = 0)"
          using k4 k2 by presburger
        then have "embedBits ?D binary 0 0 ! (4 * p + k) = ?D ! (4 * p + k)" unfolding nth by auto
        then show ?thesis using Dj k2 by simp
      qed
    qed
    have "(\<lambda>k. if k < 4 then embedBits ?D binary 0 0 ! (4 * p + k) else 0) =
          (\<lambda>k. if k < 4
                then if k = 2 \<and> p < length binary
                     then (pixel ctx x y 2 AND 0xFE) OR parseBit (binary ! p)
                     else pixel ctx x y k
                else 0)"
      using val by (intro ext) simp
    then have "pixel ?cv x y c =
        storedPixel ctx
          (\<lambda>k. if k < 4
                then if k = 2 \<and> ?p < length binary
                     then (pixel ctx x y 2 AND 0xFE) OR parseBit (binary ! ?p)
                     else pixel ctx x y k
                else 0) c"
      unfolding inreg p_def by simp
    then show ?thesis using True by simp
  qed
  have dims: "bwidth ?cv = bwidth ctx \<and> bheight ?cv = bheight ctx"
    by (simp add: putImageData_def)
  from run dims px show ?thesis by blast
qed
lemma textToBinary_append: "textToBinary (a @ b) = textToBinary a @ textToBinary b"
  by (simp add: textToBinary_def)

lemma wide_unit: "textToBinary [272] = js ''100010000''"
proof -
  have "toStringRadix 2 272 = js ''100010000''"
    apply (subst toStringRadix2, simp)+
    apply (simp add: js_def)
    done
  then show ?thesis by (simp add: textToBinary_def padStart_def js_def)
qed

lemma wide_json:
  "JSON_stringify wideMetadata =
     js ''{'' @ [34] @ js ''sessionId'' @ [34] @ js '':'' @ [34] @ [272] @ [34]
     @ js '','' @ [34] @ js ''emailHash'' @ [34] @ js '':'' @ [34] @ js ''6a616e652e646f65'' @ [34]
     @ js '','' @ [34] @ js ''timestamp'' @ [34] @ js '':'' @ [34] @ js ''2026-01-02T03:04:05.678Z'' @ [34]
     @ js '','' @ [34] @ js ''purpose'' @ [34] @ js '':'' @ [34] @ js ''driver_registration'' @ [34]
     @ js '','' @ [34] @ js ''platform'' @ [34] @ js '':'' @ [34] @ js ''deligo_website'' @ [34]
     @ js ''}''"
  by (simp add: JSON_stringify_def wideMetadata_def quoteJSONString_def escapeUnit_def
      isHighSurrogate_def isLowSurrogate_def js_def)

lemma uuid_json:
  "JSON_stringify uuidMetadata =
     js ''{'' @ [34] @ js ''sessionId'' @ [34] @ js '':'' @ [34] @ js ''123e4567-e89b-42d3-a456-426614174000'' @ [34]
     @ js '','' @ [34] @ js ''emailHash'' @ [34] @ js '':'' @ [34] @ js ''6a616e652e646f65'' @ [34]
     @ js '','' @ [34] @ js ''timestamp'' @ [34] @ js '':'' @ [34] @ js ''2026-01-02T03:04:05.678Z'' @ [34]
     @ js '','' @ [34] @ js ''purpose'' @ [34] @ js '':'' @ [34] @ js ''driver_registration'' @ [34]
     @ js '','' @ [34] @ js ''platform'' @ [34] @ js '':'' @ [34] @ js ''deligo_website'' @ [34]
     @ js ''}''"
  by (simp add: JSON_stringify_def uuidMetadata_def quoteJSONString_def escapeUnit_def
      isHighSurrogate_def isLowSurrogate_def js_def)

lemma uuid_latin1: "list_all (\<lambda>c. c < 256) (JSON_stringify uuidMetadata)"
  unfolding uuid_json by (simp add: js_def)

lemma uuid_length: "length (JSON_stringify uuidMetadata) = 182"
  unfolding uuid_json by (simp add: js_def)

lemma uuid_bits:
  "eightBitsPerCharacter (JSON_stringify uuidMetadata) ! 0 = 48"
  "eightBitsPerCharacter (JSON_stringify uuidMetadata) ! 1 = 49"
proof -
  obtain rest where r: "JSON_stringify uuidMetadata = 123 # rest"
    unfolding uuid_json by (simp add: js_def)
  have e: "eightBitsMSBFirst 123 = [48, 49, 49, 49, 49, 48, 49, 49]"
    by (simp add: eightBitsMSBFirst_def)
  show "eightBitsPerCharacter (JSON_stringify uuidMetadata) ! 0 = 48"
    unfolding r by (simp add: eightBitsPerCharacter_def e)
  show "eightBitsPerCharacter (JSON_stringify uuidMetadata) ! 1 = 49"
    unfolding r by (simp add: eightBitsPerCharacter_def e)
qed

lemma regionSize_400: "regionSize 400 400 = 40"
  by (simp add: regionSize_def)

text \<open>
  Claim C2 speaks of every metadata object and every image. It fails in two ways.
  \<open>textToBinary\<close> pads the binary form of a code unit to eight digits but does not shorten
  it, so a code unit above 255 gives more than eight bits: the letter U+0110 gives nine,
  and the serialisation of \<open>wideMetadata\<close> has one bit more than eight for a character.
  And a canvas does not keep a pixel that is not fully opaque as it is written: on a
  canvas that keeps premultiplied colour, with alpha 128 and the blue value 54 everywhere,
  the second pixel of the region is written with the blue value 55 for the bit 1, and reads
  back as 56, whose lowest bit is 0 and whose higher bits differ from those of 54.
\<close>

theorem applyInvisibleWatermark_counterexample:
  "textToBinary [272] = js ''100010000''
   \<and> length (textToBinary (JSON_stringify wideMetadata)) = 8 * length (JSON_stringify wideMetadata) + 1
   \<and> regionSize 400 400 = 40
   \<and> length (textToBinary (JSON_stringify uuidMetadata)) = 1456
   \<and> textToBinary (JSON_stringify uuidMetadata) ! 1 = 49
   \<and> pixel translucentCanvas 361 360 2 = 54
   \<and> pixelAfter (applyInvisibleWatermark translucentCanvas uuidMetadata 400 400) 361 360 2 = Some 56"
proof -
  define pre where "pre = js ''{'' @ [34] @ js ''sessionId'' @ [34] @ js '':'' @ [34]"
  define post where "post = [34]
     @ js '','' @ [34] @ js ''emailHash'' @ [34] @ js '':'' @ [34] @ js ''6a616e652e646f65'' @ [34]
     @ js '','' @ [34] @ js ''timestamp'' @ [34] @ js '':'' @ [34] @ js ''2026-01-02T03:04:05.678Z'' @ [34]
     @ js '','' @ [34] @ js ''purpose'' @ [34] @ js '':'' @ [34] @ js ''driver_registration'' @ [34]
     @ js '','' @ [34] @ js ''platform'' @ [34] @ js '':'' @ [34] @ js ''deligo_website'' @ [34]
     @ js ''}''"
  have json: "JSON_stringify wideMetadata = pre @ [272] @ post"
    unfolding wide_json pre_def post_def by simp
  have "list_all (\<lambda>c. c < 256) pre" by (simp add: pre_def js_def)
  then have lp: "length (textToBinary pre) = 8 * length pre"
    by (simp add: textToBinary_latin1 length_eightBitsPerCharacter)
  have "list_all (\<lambda>c. c < 256) post" by (simp add: post_def js_def)
  then have lq: "length (textToBinary post) = 8 * length post"
    by (simp add: textToBinary_latin1 length_eightBitsPerCharacter)
  have lw: "length (textToBinary [272]) = 9" unfolding wide_unit by (simp add: js_def)
  have wide: "length (textToBinary (JSON_stringify wideMetadata)) = 8 * length (JSON_stringify wideMetadata) + 1"
    unfolding json textToBinary_append using lp lq lw by simp
  let ?binary = "textToBinary (JSON_stringify uuidMetadata)"
  have tb: "?binary = eightBitsPerCharacter (JSON_stringify uuidMetadata)"
    using uuid_latin1 by (rule textToBinary_latin1)
  have len: "length ?binary = 1456"
    unfolding tb length_eightBitsPerCharacter uuid_length by simp
  have bit1: "?binary ! 1 = 49" unfolding tb by (rule uuid_bits(2))
  have w: "bwidth translucentCanvas = 400" and h: "bheight translucentCanvas = 400"
    by (simp_all add: translucentCanvas_def)
  have rs: "40 = regionSize (bwidth translucentCanvas) (bheight translucentCanvas)"
    unfolding w h regionSize_400 by simp
  have cap: "length ?binary \<le> 40 * 40" unfolding len by simp
  from applyInvisibleWatermark_pixels[OF rs refl cap]
  obtain cv where run: "applyInvisibleWatermark translucentCanvas uuidMetadata 400 400 = Inr cv"
    and px: "\<And>x y c. pixel cv x y c =
                 (if 400 - 40 \<le> x \<and> x < 400 \<and> 400 - 40 \<le> y \<and> y < 400 \<and> c < 4
                  then storedPixel translucentCanvas
                         (\<lambda>k. if k < 4
                               then if k = 2 \<and> (y - (400 - 40)) * 40 + (x - (400 - 40)) < length ?binary
                                    then (pixel translucentCanvas x y 2 AND 0xFE)
                                         OR parseBit (?binary ! ((y - (400 - 40)) * 40 + (x - (400 - 40))))
                                    else pixel translucentCanvas x y k
                               else 0) c
                  else pixel translucentCanvas x y c)"
    unfolding w h by blast
  have old: "pixel translucentCanvas 361 360 2 = 54" by (simp add: translucentCanvas_def)
  have bit1': "?binary ! Suc 0 = 49" using bit1 by simp
  have pb: "parseBit 49 = 1" by (simp add: parseBit_def)
  have "pixel cv 361 360 2 = 56"
    unfolding px len by (simp add: bit1' pb storedPixel_def translucentCanvas_def premultipliedBacking_def)
  then have after: "pixelAfter (applyInvisibleWatermark translucentCanvas uuidMetadata 400 400) 361 360 2 = Some 56"
    unfolding run by (simp add: pixelAfter_def)
  from wide_unit wide regionSize_400 len bit1 old after show ?thesis by blast
qed

text \<open>
  Claim C2, amended: for metadata whose serialisation has only code units below 256 (as
  that of every metadata object that \<open>processDocument\<close> makes: a session identifier from
  \<open>crypto.randomUUID\<close>, a hexadecimal hash, an ISO timestamp and two constants), and for the
  fully opaque pixels of the canvas. Let \<open>bits\<close> be the serialisation with eight bits for
  every character, the most significant bit first, and let the region hold at least as many
  pixels as there are bits. Then \<open>applyInvisibleWatermark\<close> succeeds and keeps the size; every
  pixel outside the region is unchanged; and for a fully opaque pixel of the region, of
  raster index \<open>k\<close> in the region: if \<open>k\<close> is below the number of bits, the lowest bit of its
  blue value is bit \<open>k\<close> and the seven higher bits of the blue value are unchanged, and every
  other channel value (and the blue value when \<open>k\<close> is not below the number of bits) is
  unchanged. What a pixel of the region that is not fully opaque becomes is left to the
  backing store of the canvas.
\<close>

theorem applyInvisibleWatermark_embeds:
  assumes latin1: "list_all (\<lambda>c. c < 256) (JSON_stringify metadata)"
    and bits: "bits = eightBitsPerCharacter (JSON_stringify metadata)"
    and rs: "rs = regionSize (bwidth ctx) (bheight ctx)"
    and cap: "length bits \<le> rs * rs"
  shows "\<exists>cv. applyInvisibleWatermark ctx metadata (bwidth ctx) (bheight ctx) = Inr cv
           \<and> bwidth cv = bwidth ctx \<and> bheight cv = bheight ctx
           \<and> length bits = 8 * length (JSON_stringify metadata)
           \<and> (\<forall>x y c.
                 (\<not> (bwidth ctx - rs \<le> x \<and> x < bwidth ctx \<and> bheight ctx - rs \<le> y \<and> y < bheight ctx)
                  \<longrightarrow> pixel cv x y c = pixel ctx x y c)
               \<and> (bwidth ctx - rs \<le> x \<and> x < bwidth ctx \<and> bheight ctx - rs \<le> y \<and> y < bheight ctx
                  \<and> pixel ctx x y 3 = 255
                  \<longrightarrow> ((y - (bheight ctx - rs)) * rs + (x - (bwidth ctx - rs)) < length bits
                        \<longrightarrow> pixel cv x y 2 AND 1
                              = (if bits ! ((y - (bheight ctx - rs)) * rs + (x - (bwidth ctx - rs))) = 49 then 1 else 0)
                          \<and> pixel cv x y 2 AND 0xFE = pixel ctx x y 2 AND 0xFE)
                    \<and> (\<not> (c = 2 \<and> (y - (bheight ctx - rs)) * rs + (x - (bwidth ctx - rs)) < length bits)
                        \<longrightarrow> pixel cv x y c = pixel ctx x y c)))"
proof -
  have tb: "bits = textToBinary (JSON_stringify metadata)"
    unfolding bits using latin1 by (simp add: textToBinary_latin1)
  from applyInvisibleWatermark_pixels[OF rs tb cap]
  obtain cv where run: "applyInvisibleWatermark ctx metadata (bwidth ctx) (bheight ctx) = Inr cv"
    and dims: "bwidth cv = bwidth ctx \<and> bheight cv = bheight ctx"
    and px: "\<And>x y c. pixel cv x y c =
                 (if bwidth ctx - rs \<le> x \<and> x < bwidth ctx \<and> bheight ctx - rs \<le> y \<and> y < bheight ctx
                     \<and> c < 4
                  then storedPixel ctx
                         (\<lambda>k. if k < 4
                               then if k = 2 \<and> (y - (bheight ctx - rs)) * rs + (x - (bwidth ctx - rs)) < length bits
                                    then (pixel ctx x y 2 AND 0xFE)
                                         OR parseBit (bits ! ((y - (bheight ctx - rs)) * rs + (x - (bwidth ctx - rs))))
                                    else pixel ctx x y k
                               else 0) c
                  else pixel ctx x y c)"
    by blast
  have len: "length bits = 8 * length (JSON_stringify metadata)"
    unfolding bits by (rule length_eightBitsPerCharacter)
  have digit: "p < length bits \<Longrightarrow> bits ! p \<in> {48, 49}" for p
    using textToBinary_digits[of "JSON_stringify metadata"] nth_mem[of p bits] unfolding tb by blast
  have outside: "pixel cv x y c = pixel ctx x y c"
    if "\<not> (bwidth ctx - rs \<le> x \<and> x < bwidth ctx \<and> bheight ctx - rs \<le> y \<and> y < bheight ctx)" for x y c
    using that px[of x y c] by auto
  have opaque: "pixel cv x y c =
        (if c = 2 \<and> (y - (bheight ctx - rs)) * rs + (x - (bwidth ctx - rs)) < length bits
         then (pixel ctx x y 2 AND 0xFE)
              OR parseBit (bits ! ((y - (bheight ctx - rs)) * rs + (x - (bwidth ctx - rs))))
         else pixel ctx x y c)"
    if reg: "bwidth ctx - rs \<le> x \<and> x < bwidth ctx \<and> bheight ctx - rs \<le> y \<and> y < bheight ctx"
      and op: "pixel ctx x y 3 = 255" for x y c
  proof (cases "c < 4")
    case True
    define written where "written =
        (\<lambda>k. if k < 4
              then if k = 2 \<and> (y - (bheight ctx - rs)) * rs + (x - (bwidth ctx - rs)) < length bits
                   then (pixel ctx x y 2 AND 0xFE)
                        OR parseBit (bits ! ((y - (bheight ctx - rs)) * rs + (x - (bwidth ctx - rs))))
                   else pixel ctx x y k
              else 0)"
    have w3: "written 3 = 255" using op by (simp add: written_def)
    have st: "storedPixel ctx written = written" by (simp add: storedPixel_def w3)
    have "pixel cv x y c = storedPixel ctx written c"
      unfolding written_def using px[of x y c] reg True by simp
    then have "pixel cv x y c = written c" unfolding st .
    then show ?thesis using True by (simp add: written_def)
  next
    case False
    then have "pixel cv x y c = pixel ctx x y c" using px[of x y c] by simp
    then show ?thesis using False by simp
  qed
  have body: "(\<not> (bwidth ctx - rs \<le> x \<and> x < bwidth ctx \<and> bheight ctx - rs \<le> y \<and> y < bheight ctx)
                  \<longrightarrow> pixel cv x y c = pixel ctx x y c)
               \<and> (bwidth ctx - rs \<le> x \<and> x < bwidth ctx \<and> bheight ctx - rs \<le> y \<and> y < bheight ctx
                  \<and> pixel ctx x y 3 = 255
                  \<longrightarrow> ((y - (bheight ctx - rs)) * rs + (x - (bwidth ctx - rs)) < length bits
                        \<longrightarrow> pixel cv x y 2 AND 1
                              = (if bits ! ((y - (bheight ctx - rs)) * rs + (x - (bwidth ctx - rs))) = 49 then 1 else 0)
                          \<and> pixel cv x y 2 AND 0xFE = pixel ctx x y 2 AND 0xFE)
                    \<and> (\<not> (c = 2 \<and> (y - (bheight ctx - rs)) * rs + (x - (bwidth ctx - rs)) < length bits)
                        \<longrightarrow> pixel cv x y c = pixel ctx x y c))" for x y c
  proof (intro conjI impI)
    assume "\<not> (bwidth ctx - rs \<le> x \<and> x < bwidth ctx \<and> bheight ctx - rs \<le> y \<and> y < bheight ctx)"
    then show "pixel cv x y c = pixel ctx x y c" by (rule outside)
  next
    let ?p = "(y - (bheight ctx - rs)) * rs + (x - (bwidth ctx - rs))"
    assume a: "bwidth ctx - rs \<le> x \<and> x < bwidth ctx \<and> bheight ctx - rs \<le> y \<and> y < bheight ctx
                  \<and> pixel ctx x y 3 = 255"
      and k: "?p < length bits"
    have v: "pixel cv x y 2 = (pixel ctx x y 2 AND 0xFE) OR parseBit (bits ! ?p)"
      using opaque[of x y 2] a k by simp
    from k have "bits ! ?p \<in> {48, 49}" by (rule digit)
    then have pb: "parseBit (bits ! ?p) = (if bits ! ?p = 49 then 1 else 0)" by (rule parseBit_digit)
    show "pixel cv x y 2 AND 1 = (if bits ! ?p = 49 then 1 else 0)"
      unfolding v pb using lsb_only_one[of "pixel ctx x y 2"] lsb_only_zero[of "pixel ctx x y 2"] by simp
    show "pixel cv x y 2 AND 0xFE = pixel ctx x y 2 AND 0xFE"
      unfolding v pb using lsb_only_one[of "pixel ctx x y 2"] lsb_only_zero[of "pixel ctx x y 2"] by simp
  next
    assume a: "bwidth ctx - rs \<le> x \<and> x < bwidth ctx \<and> bheight ctx - rs \<le> y \<and> y < bheight ctx
                  \<and> pixel ctx x y 3 = 255"
      and n: "\<not> (c = 2 \<and> (y - (bheight ctx - rs)) * rs + (x - (bwidth ctx - rs)) < length bits)"
    from a have "pixel cv x y c =
        (if c = 2 \<and> (y - (bheight ctx - rs)) * rs + (x - (bwidth ctx - rs)) < length bits
         then (pixel ctx x y 2 AND 0xFE)
              OR parseBit (bits ! ((y - (bheight ctx - rs)) * rs + (x - (bwidth ctx - rs))))
         else pixel ctx x y c)"
      by (intro opaque) blast+
    also have "\<dots> = pixel ctx x y c" using n by (rule if_not_P)
    finally show "pixel cv x y c = pixel ctx x y c" .
  qed
  from run dims len body show ?thesis by blast
qed

theorem applyInvisibleWatermark_embeds_witness:
  "list_all (\<lambda>c. c < 256) (JSON_stringify uuidMetadata)
   \<and> 40 = regionSize (bwidth opaqueCanvas) (bheight opaqueCanvas)
   \<and> length (eightBitsPerCharacter (JSON_stringify uuidMetadata)) = 1456
   \<and> (\<exists>cv. applyInvisibleWatermark opaqueCanvas uuidMetadata 400 400 = Inr cv
          \<and> pixel cv 360 360 2 AND 1 = 0 \<and> pixel cv 360 360 2 AND 0xFE = 254
          \<and> pixel cv 361 360 2 AND 1 = 1 \<and> pixel cv 361 360 2 AND 0xFE = 254
          \<and> pixel cv 361 360 0 = 255
          \<and> pixel cv 399 399 2 = 255
          \<and> pixel cv 0 0 2 = 255)"
proof -
  let ?bits = "eightBitsPerCharacter (JSON_stringify uuidMetadata)"
  have w: "bwidth opaqueCanvas = 400" and h: "bheight opaqueCanvas = 400"
    by (simp_all add: opaqueCanvas_def)
  have rs: "40 = regionSize (bwidth opaqueCanvas) (bheight opaqueCanvas)"
    unfolding w h regionSize_400 by simp
  have len: "length ?bits = 1456"
    unfolding length_eightBitsPerCharacter uuid_length by simp
  have cap: "length ?bits \<le> 40 * 40" unfolding len by simp
  have white: "pixel opaqueCanvas x y c = 255" for x y c by (simp add: opaqueCanvas_def)
  from applyInvisibleWatermark_embeds [OF uuid_latin1 refl rs cap]
  obtain cv where run: "applyInvisibleWatermark opaqueCanvas uuidMetadata 400 400 = Inr cv"
    and out: "\<And>x y c. \<not> (400 - 40 \<le> x \<and> x < 400 \<and> 400 - 40 \<le> y \<and> y < 400)
                  \<Longrightarrow> pixel cv x y c = pixel opaqueCanvas x y c"
    and bit: "\<And>x y. 400 - 40 \<le> x \<and> x < 400 \<and> 400 - 40 \<le> y \<and> y < 400
                  \<and> pixel opaqueCanvas x y 3 = 255
                  \<Longrightarrow> (y - (400 - 40)) * 40 + (x - (400 - 40)) < length ?bits
                  \<Longrightarrow> pixel cv x y 2 AND 1
                              = (if ?bits ! ((y - (400 - 40)) * 40 + (x - (400 - 40))) = 49 then 1 else 0)
                          \<and> pixel cv x y 2 AND 0xFE = pixel opaqueCanvas x y 2 AND 0xFE"
    and keep: "\<And>x y c. 400 - 40 \<le> x \<and> x < 400 \<and> 400 - 40 \<le> y \<and> y < 400
                  \<and> pixel opaqueCanvas x y 3 = 255
                  \<Longrightarrow> \<not> (c = 2 \<and> (y - (400 - 40)) * 40 + (x - (400 - 40)) < length ?bits)
                  \<Longrightarrow> pixel cv x y c = pixel opaqueCanvas x y c"
    unfolding w h by blast
  have p0: "pixel cv 360 360 2 AND 1 = 0 \<and> pixel cv 360 360 2 AND 0xFE = 254"
    using bit[of 360 360] by (simp add: white len uuid_bits(1))
  have b1: "?bits ! Suc 0 = 49" using uuid_bits(2) by simp
  have p1: "pixel cv 361 360 2 AND 1 = 1 \<and> pixel cv 361 360 2 AND 0xFE = 254"
    using bit[of 361 360] by (simp add: white len b1)
  have p2: "pixel cv 361 360 0 = 255" using keep[of 361 360 0] by (simp add: white)
  have p3: "pixel cv 399 399 2 = 255" using keep[of 399 399 2] by (simp add: white len)
  have p4: "pixel cv 0 0 2 = 255" using out[of 0 0 2] by (simp add: white)
  from uuid_latin1 rs len run p0 p1 p2 p3 p4 show ?thesis by blast
qed
end
